theory Spec2Isabelle
  imports Main "HOL-Library.AList" "HOL-Library.Multiset" "HOL-Library.Char_ord" "HOL-Library.List_Lexorder" "HOL-Library.Product_Lexorder"
begin

section \<open>Data model of the decision graph\<close>

text \<open>
  The graph engine of \<^verbatim>\<open>tools/dna-graph.py\<close> works on a Python dict \<^verbatim>\<open>nodes\<close> that maps
  a decision ID to the frontmatter dict of the decision, extended by \<^verbatim>\<open>load_graph\<close> with
  the keys \<^verbatim>\<open>_scope\<close>, \<^verbatim>\<open>_filepath\<close> and \<^verbatim>\<open>_body\<close>. A Python dict iterates in insertion
  order, and that order decides where the depth-first search starts, so the dict is an
  association list here; its keys are distinct. A frontmatter dict is a record whose
  optional keys are options (\<open>None\<close>: the key is absent). Fields hold values of the type
  the record source promises (level an integer, the others strings); a YAML null or a
  scalar of another type in a field is outside the model.

  An entry of \<^verbatim>\<open>depends_on\<close> is a string, a dict of which only the key \<^verbatim>\<open>id\<close> is read, or
  anything else (ignored by both readers).
\<close>

type_synonym nid = string

datatype scope = Constitution | Project

datatype dep = DepStr string | DepDict "string option" | DepOther

record node =
  title :: "string option"
  date :: "string option"
  level :: "int option"
  state :: "string option"
  stakes :: "string option"
  depends_on :: "dep list"
  scope :: scope
  body :: string

type_synonym graph = "(nid \<times> node) list"

text \<open>\<^verbatim>\<open>nid in nodes\<close> and \<^verbatim>\<open>nid in all_ids\<close> (\<^verbatim>\<open>all_ids = set(nodes.keys())\<close>).\<close>

definition has_id :: "graph \<Rightarrow> nid \<Rightarrow> bool" where
  "has_id nodes k = (k \<in> set (map fst nodes))"

text \<open>
  \<^verbatim>\<open>get_deps_list\<close>: a string entry is kept, a dict entry contributes its \<^verbatim>\<open>id\<close> when that
  is truthy (a non-empty string), every other entry is dropped.
\<close>

fun dep_listed :: "dep \<Rightarrow> nid option" where
  "dep_listed (DepStr s) = Some s"
| "dep_listed (DepDict (Some s)) = (if s \<noteq> [] then Some s else None)"
| "dep_listed (DepDict None) = None"
| "dep_listed DepOther = None"

definition get_deps_list :: "node \<Rightarrow> nid list" where
  "get_deps_list n = List.map_filter dep_listed (depends_on n)"

text \<open>
  \<^verbatim>\<open>get_dependents\<close>: a linear scan in dict order; a node is appended once for every entry
  of its \<^verbatim>\<open>depends_on\<close> that names \<^verbatim>\<open>node_id\<close> (\<^verbatim>\<open>dep.get("id")\<close> for a dict, without the
  truthiness test of \<^verbatim>\<open>get_deps_list\<close>).
\<close>

fun dep_named :: "dep \<Rightarrow> nid option" where
  "dep_named (DepStr s) = Some s"
| "dep_named (DepDict x) = x"
| "dep_named DepOther = None"

definition get_dependents :: "graph \<Rightarrow> nid \<Rightarrow> nid list" where
  "get_dependents nodes node_id =
     concat (map (\<lambda>(k, n). map (\<lambda>_. k) (filter (\<lambda>d. dep_named d = Some node_id) (depends_on n)))
                 nodes)"

text \<open>
  Errors and warnings are f-strings in the source. Each constructor below stands for one
  message template and carries the values the template interpolates.
\<close>

datatype fvalue = VStr string | VList "string list" | VInt int

datatype finding =
    BadPrefix nid
  | MissingTitle nid
  | MissingDate nid
  | MissingLevel nid
  | InvalidLevel nid fvalue
  | InvalidState nid string
  | MissingState nid
  | InvalidStakes nid fvalue
  | NonExistentDep nid nid
  | MissingSection nid string
  | CycleDetected "nid list"
  | Orphan nid
  | LevelInversion nid int nid int
  | IronRule nid nid
  | UpstreamSuperseded nid nid
  | UpstreamSuggested nid nid
  | BodyLint nid string
  | MissingDepWarning nid int
  | NotFound nid
  | IllegalTransition nid fvalue fvalue
  | CannotCommit nid nid string
  | SelfDependency nid
  | WouldCycle nid nid
  | EmptyTitle nid
  | UnknownField string

datatype exn = ValueError | AttributeError | TypeError | KeyError | SystemExit

definition VALID_STATES :: "string list" where
  "VALID_STATES = [''suggested'', ''committed'', ''superseded'']"

definition VALID_STAKES :: "string list" where
  "VALID_STAKES = [''high'', ''medium'', ''low'']"

definition VALID_LEVELS :: "int list" where
  "VALID_LEVELS = [1, 2, 3, 4]"

section \<open>State transitions\<close>

definition LEGAL_TRANSITIONS :: "(fvalue \<times> fvalue) list" where
  "LEGAL_TRANSITIONS =
     [(VStr ''suggested'', VStr ''committed''),
      (VStr ''suggested'', VStr ''superseded''),
      (VStr ''committed'', VStr ''superseded'')]"

text \<open>\<^verbatim>\<open>validate_transition\<close> returns \<^verbatim>\<open>(ok, error_msg)\<close>; the message names both states.\<close>

definition validate_transition :: "fvalue \<Rightarrow> fvalue \<Rightarrow> bool \<times> (fvalue \<times> fvalue) option" where
  "validate_transition old_state new_state =
     (if old_state = new_state then (True, None)
      else if (old_state, new_state) \<in> set LEGAL_TRANSITIONS then (True, None)
      else (False, Some (old_state, new_state)))"

section \<open>Pre-validation of a field update\<close>

text \<open>
  The incremental cycle check keeps a Python list as a stack (\<^verbatim>\<open>pop()\<close> takes the last
  element, \<^verbatim>\<open>extend\<close> appends) and a set \<^verbatim>\<open>visited\<close>. The head of the list below is the top
  of the stack. \<^verbatim>\<open>adj\<close> is a dict of sets; a set is a duplicate-free list here, in an order
  the source leaves open. The loop ends with \<open>True\<close> when it pops \<^verbatim>\<open>nid\<close> (the \<^verbatim>\<open>break\<close> after
  the error) and with \<open>False\<close> when the stack runs empty.
\<close>

definition adj_get :: "(nid \<times> nid list) list \<Rightarrow> nid \<Rightarrow> nid list" where
  "adj_get adj k = (case map_of adj k of None \<Rightarrow> [] | Some vs \<Rightarrow> vs)"

function cycle_search :: "(nid \<times> nid list) list \<Rightarrow> nid \<Rightarrow> nid list \<Rightarrow> nid list \<Rightarrow> bool" where
  "cycle_search adj k [] visited = False"
| "cycle_search adj k (current # stack) visited =
     (if current = k then True
      else if current \<in> set visited then cycle_search adj k stack visited
      else cycle_search adj k (rev (adj_get adj current) @ stack) (current # visited))"
  by pat_completeness auto

definition adj_range :: "(nid \<times> nid list) list \<Rightarrow> nid set" where
  "adj_range adj = set (concat (map snd adj))"

lemma adj_get_range: "set (adj_get adj k) \<subseteq> adj_range adj"
proof (cases "map_of adj k")
  case None
  then show ?thesis by (simp add: adj_get_def)
next
  case (Some vs)
  then have "(k, vs) \<in> set adj" by (rule map_of_SomeD)
  then have "set vs \<subseteq> adj_range adj" by (force simp: adj_range_def)
  with Some show ?thesis by (simp add: adj_get_def)
qed

lemma finite_adj_range: "finite (adj_range adj)"
  by (simp add: adj_range_def)

termination cycle_search
proof (relation "inv_image (finite_psubset <*lex*> less_than)
         (\<lambda>(adj, k, stack, visited). ((adj_range adj \<union> set stack) - set visited, length stack))")
  show "wf (inv_image (finite_psubset <*lex*> less_than)
         (\<lambda>(adj, k, stack, visited). ((adj_range adj \<union> set stack) - set visited, length stack)))"
    by (intro wf_inv_image wf_lex_prod wf_finite_psubset wf_less_than)
next
  fix adj :: "(nid \<times> nid list) list" and k current :: nid and stack visited :: "nid list"
  assume "current \<noteq> k" "current \<in> set visited"
  have "(adj_range adj \<union> set stack) - set visited \<subseteq> (adj_range adj \<union> set (current # stack)) - set visited"
    by auto
  then show "((adj, k, stack, visited), (adj, k, current # stack, visited))
      \<in> inv_image (finite_psubset <*lex*> less_than)
         (\<lambda>(adj, k, stack, visited). ((adj_range adj \<union> set stack) - set visited, length stack))"
    by (auto simp: finite_psubset_def finite_adj_range)
next
  fix adj :: "(nid \<times> nid list) list" and k current :: nid and stack visited :: "nid list"
  assume a: "current \<noteq> k" "current \<notin> set visited"
  have "(adj_range adj \<union> set (rev (adj_get adj current) @ stack)) - set (current # visited)
        \<subset> (adj_range adj \<union> set (current # stack)) - set visited"
    using a adj_get_range [of adj current] by auto
  then show "((adj, k, rev (adj_get adj current) @ stack, current # visited), (adj, k, current # stack, visited))
      \<in> inv_image (finite_psubset <*lex*> less_than)
         (\<lambda>(adj, k, stack, visited). ((adj_range adj \<union> set stack) - set visited, length stack))"
    by (simp add: finite_psubset_def finite_adj_range)
qed


text \<open>
  The adjacency the check searches: every node but \<^verbatim>\<open>nid\<close> keeps its listed dependencies
  that exist in the graph, and \<^verbatim>\<open>adj[nid] = set(deps)\<close> holds the proposed ones. The source
  creates a key of the \<^verbatim>\<open>defaultdict\<close> at its first \<^verbatim>\<open>add\<close> and reads with
  \<^verbatim>\<open>adj.get(current, set())\<close>, so a key with an empty set and an absent key read the same.
\<close>

definition set_adjacency :: "graph \<Rightarrow> nid \<Rightarrow> nid list \<Rightarrow> (nid \<times> nid list) list" where
  "set_adjacency nodes k deps =
     (k, remdups deps) #
     map (\<lambda>(e, n). (e, remdups (filter (has_id nodes) (get_deps_list n))))
         (filter (\<lambda>(e, n). e \<noteq> k) nodes)"

text \<open>\<^verbatim>\<open>nodes[dep_id].get("state", "unknown")\<close>\<close>

definition state_or_unknown :: "node \<Rightarrow> string" where
  "state_or_unknown n = (case state n of None \<Rightarrow> ''unknown'' | Some s \<Rightarrow> s)"

text \<open>The branch \<^verbatim>\<open>field == "state"\<close>.\<close>

definition set_state_errors :: "nid \<Rightarrow> node \<Rightarrow> fvalue \<Rightarrow> graph \<Rightarrow> finding list" where
  "set_state_errors k n v nodes =
     (let old_state = (case state n of None \<Rightarrow> ''suggested'' | Some s \<Rightarrow> s);
          errors1 = (if fst (validate_transition (VStr old_state) v) then []
                     else [IllegalTransition k (VStr old_state) v]);
          errors2 = (if v = VStr ''committed'' \<and> errors1 = []
                     then concat (map (\<lambda>d. case map_of nodes d of
                                               None \<Rightarrow> []
                                             | Some dn \<Rightarrow> (if state_or_unknown dn \<noteq> ''committed''
                                                          then [CannotCommit k d (state_or_unknown dn)]
                                                          else []))
                                      (get_deps_list n))
                     else [])
      in errors1 @ errors2)"

text \<open>The branch \<^verbatim>\<open>field == "depends_on"\<close>: errors and warnings of the loop over the proposed
  dependencies, the iron rule, and the cycle check, which runs only when the list is not
  empty and no error was found before.\<close>

definition level_inversion :: "nid \<Rightarrow> int option \<Rightarrow> nid \<Rightarrow> int option \<Rightarrow> finding list" where
  "level_inversion k my_level d dep_level =
     (case dep_level of
        None \<Rightarrow> []
      | Some dl \<Rightarrow> (case my_level of
                     None \<Rightarrow> []
                   | Some ml \<Rightarrow> (if dl > ml then [LevelInversion k ml d dl] else [])))"

definition set_deps_basic_errors :: "nid \<Rightarrow> nid list \<Rightarrow> graph \<Rightarrow> finding list" where
  "set_deps_basic_errors k deps nodes =
     concat (map (\<lambda>d. if \<not> has_id nodes d then [NonExistentDep k d]
                       else if d = k then [SelfDependency k] else []) deps)"

definition set_deps_warnings :: "nid \<Rightarrow> node \<Rightarrow> nid list \<Rightarrow> graph \<Rightarrow> finding list" where
  "set_deps_warnings k n deps nodes =
     concat (map (\<lambda>d. if \<not> has_id nodes d then [] else if d = k then []
                       else (case map_of nodes d of
                               None \<Rightarrow> []
                             | Some dn \<Rightarrow> level_inversion k (level n) d (level dn))) deps)"

definition iron_rule_errors :: "nid \<Rightarrow> nid list \<Rightarrow> graph \<Rightarrow> finding list" where
  "iron_rule_errors k deps nodes =
     concat (map (\<lambda>d. case map_of nodes d of
                         None \<Rightarrow> []
                       | Some dn \<Rightarrow> (if scope dn = Project then [IronRule k d] else [])) deps)"

definition set_cycle_errors :: "nid \<Rightarrow> nid list \<Rightarrow> graph \<Rightarrow> finding list" where
  "set_cycle_errors k deps nodes =
     concat (map (\<lambda>d. if cycle_search (set_adjacency nodes k deps) k [d] [] then [WouldCycle k d]
                       else []) deps)"

definition set_deps_errors :: "nid \<Rightarrow> node \<Rightarrow> nid list \<Rightarrow> graph \<Rightarrow> finding list" where
  "set_deps_errors k n deps nodes =
     (let errors1 = set_deps_basic_errors k deps nodes;
          errors2 = (if scope n = Constitution then iron_rule_errors k deps nodes else []);
          errors3 = (if deps \<noteq> [] \<and> errors1 @ errors2 = [] then set_cycle_errors k deps nodes
                     else [])
      in errors1 @ errors2 @ errors3)"

text \<open>The branch \<^verbatim>\<open>field == "level"\<close>: a warning for every current dependency of a higher
  level than the proposed one.\<close>

definition set_level_warnings :: "nid \<Rightarrow> node \<Rightarrow> int \<Rightarrow> graph \<Rightarrow> finding list" where
  "set_level_warnings k n v nodes =
     concat (map (\<lambda>d. case map_of nodes d of
                         None \<Rightarrow> []
                       | Some dn \<Rightarrow> level_inversion k (Some v) d (level dn)) (get_deps_list n))"

text \<open>\<^verbatim>\<open>not value or not value.strip()\<close> for a string: nothing but white space. The white
  space of \<^verbatim>\<open>str.strip()\<close> and of the regular expression \<^verbatim>\<open>\s\<close> among the characters up to
  255 is the space, 0x09 to 0x0D, 0x1C to 0x1F, 0x85 and 0xA0.\<close>

definition blank :: "string \<Rightarrow> bool" where
  "blank s = (filter (\<lambda>c. c \<notin> set [CHR '' '', CHR 0x09, CHR 0x0A, CHR 0x0B, CHR 0x0C, CHR 0x0D,
                                     CHR 0x1C, CHR 0x1D, CHR 0x1E, CHR 0x1F, CHR 0x85, CHR 0xA0]) s = [])"

text \<open>
  \<^verbatim>\<open>validate_for_set\<close> returns \<^verbatim>\<open>(errors, warnings)\<close>. Its only caller \<^verbatim>\<open>cmd_set\<close> passes a
  list of strings for \<^verbatim>\<open>depends_on\<close>, an integer for \<^verbatim>\<open>level\<close> and a string for every other
  field. The source is dynamically typed; a value of another type takes the branch Python
  takes. A list is not hashable, so the membership tests of the branches \<^verbatim>\<open>state\<close>
  (\<^verbatim>\<open>(old_state, new_state) in LEGAL_TRANSITIONS\<close>), \<^verbatim>\<open>level\<close> and \<^verbatim>\<open>stakes\<close> raise \<^verbatim>\<open>TypeError\<close>
  on it, and \<^verbatim>\<open>value.strip()\<close> raises \<^verbatim>\<open>AttributeError\<close> on a non-empty list or a non-zero
  integer as title.
\<close>

definition validate_for_set :: "nid \<Rightarrow> string \<Rightarrow> fvalue \<Rightarrow> graph \<Rightarrow> exn + (finding list \<times> finding list)" where
  "validate_for_set k field v nodes =
     (case map_of nodes k of
        None \<Rightarrow> Inr ([NotFound k], [])
      | Some n \<Rightarrow>
          if field = ''state'' then
            (case v of
               VList ds \<Rightarrow> Inl TypeError
             | _ \<Rightarrow> Inr (set_state_errors k n v nodes, []))
          else if field = ''depends_on'' then
            (let deps = (case v of VList ds \<Rightarrow> ds | _ \<Rightarrow> [])
             in Inr (set_deps_errors k n deps nodes, set_deps_warnings k n deps nodes))
          else if field = ''level'' then
            (case v of
               VInt i \<Rightarrow> (if i \<in> set VALID_LEVELS then Inr ([], set_level_warnings k n i nodes)
                           else Inr ([InvalidLevel k v], []))
             | VList ds \<Rightarrow> Inl TypeError
             | VStr s \<Rightarrow> Inr ([InvalidLevel k v], []))
          else if field = ''stakes'' then
            (case v of
               VList ds \<Rightarrow> Inl TypeError
             | _ \<Rightarrow> (if v \<in> set (map VStr VALID_STAKES) then Inr ([], [])
                      else Inr ([InvalidStakes k v], [])))
          else if field = ''title'' then
            (case v of
               VStr s \<Rightarrow> (if blank s then Inr ([EmptyTitle k], []) else Inr ([], []))
             | VList ds \<Rightarrow> (if ds = [] then Inr ([EmptyTitle k], []) else Inl AttributeError)
             | VInt i \<Rightarrow> (if i = 0 then Inr ([EmptyTitle k], []) else Inl AttributeError))
          else Inr ([UnknownField field], []))"

text \<open>
  \<^verbatim>\<open>cmd_set\<close> after its argument parsing: the graph stands for the persisted records. When
  the pre-validation returns an error the command returns 1 before any write. Otherwise
  it sets \<^verbatim>\<open>fm[field] = value\<close>, serialises the record and rewrites its file. What the next
  load then reads for that record is decided by the frontmatter serialiser and parser,
  which are outside the graph engine: the parameter \<open>persist\<close> stands for that round trip.
  It can fail (\<^verbatim>\<open>serialize_decision\<close> raises \<^verbatim>\<open>KeyError\<close> on a record without level) and it
  need not return the other fields as they were (a record without state is written as
  suggested, the body gains a leading newline).
\<close>

definition cmd_set :: "(string \<Rightarrow> fvalue \<Rightarrow> node \<Rightarrow> exn + node) \<Rightarrow> nid \<Rightarrow> string \<Rightarrow> fvalue \<Rightarrow> graph
    \<Rightarrow> exn + (int \<times> graph)" where
  "cmd_set persist k field v nodes =
     (case map_of nodes k of
        None \<Rightarrow> Inr (1, nodes)
      | Some n \<Rightarrow>
          (case validate_for_set k field v nodes of
             Inl e \<Rightarrow> Inl e
           | Inr (errors, warnings) \<Rightarrow>
               (if errors \<noteq> [] then Inr (1, nodes)
                else (case persist field v n of
                        Inl e \<Rightarrow> Inl e
                      | Inr n' \<Rightarrow> Inr (0, map (\<lambda>(e, m). if e = k then (e, n') else (e, m)) nodes)))))"

text \<open>
  The graphs the checks speak about: the edges of an adjacency dict, the forward edges of
  the graph (a node to each listed dependency), and the forward edges after the outgoing
  edges of one node have been replaced by a proposed list.
\<close>

definition adj_edges :: "(nid \<times> nid list) list \<Rightarrow> (nid \<times> nid) set" where
  "adj_edges adj = {(x, y). y \<in> set (adj_get adj x)}"

definition forward_edges :: "graph \<Rightarrow> (nid \<times> nid) set" where
  "forward_edges nodes = {(x, y). \<exists>n. map_of nodes x = Some n \<and> y \<in> set (get_deps_list n)}"

definition subst_edges :: "graph \<Rightarrow> nid \<Rightarrow> nid list \<Rightarrow> (nid \<times> nid) set" where
  "subst_edges nodes k ds =
     {(x, y). (x = k \<and> y \<in> set ds) \<or> (x \<noteq> k \<and> (x, y) \<in> forward_edges nodes)}"

section \<open>Whole-graph validation\<close>

text \<open>
  The cycle check of \<^verbatim>\<open>cmd_validate\<close> is a recursive closure \<^verbatim>\<open>dfs(u, path)\<close> over the dicts
  \<^verbatim>\<open>adj\<close> and \<^verbatim>\<open>color\<close> and the list \<^verbatim>\<open>errors\<close>. The closure's state is passed explicitly:
  the colour dict (an association list, updated in place) and the errors. \<^verbatim>\<open>dfs_for\<close> is the
  \<^verbatim>\<open>for v in adj.get(u, [])\<close> loop of the body; its boolean result says whether the body
  left through the \<^verbatim>\<open>return\<close> after a reported cycle, in which case \<^verbatim>\<open>color[u] = BLACK\<close> is
  skipped. \<^verbatim>\<open>path.index(v)\<close> raises \<^verbatim>\<open>ValueError\<close> when \<^verbatim>\<open>v\<close> is not in \<^verbatim>\<open>path\<close>.

  The model recurses to any depth. The interpreter bounds the depth of recursion, so on
  a dependency chain longer than that bound the source raises \<^verbatim>\<open>RecursionError\<close>; that
  second way to end without a result is not part of the model, and nothing below asserts
  that validation returns on a large graph.
\<close>

datatype color = WHITE | GRAY | BLACK

fun index_of :: "nid list \<Rightarrow> nid \<Rightarrow> nat option" where
  "index_of [] v = None"
| "index_of (x # xs) v = (if x = v then Some 0 else map_option Suc (index_of xs v))"

type_synonym dfs_state = "(nid \<times> color) list \<times> finding list"

function dfs :: "(nid \<times> nid list) list \<Rightarrow> nid \<Rightarrow> nid list \<Rightarrow> dfs_state \<Rightarrow> exn + dfs_state"
  and dfs_for :: "(nid \<times> nid list) list \<Rightarrow> nid list \<Rightarrow> nid list \<Rightarrow> dfs_state \<Rightarrow> exn + (bool \<times> dfs_state)"
where
  "dfs adj u path (color, errors) =
     (case dfs_for adj path (adj_get adj u) (AList.update u GRAY color, errors) of
        Inl e \<Rightarrow> Inl e
      | Inr (returned, color', errors') \<Rightarrow>
          (if returned then Inr (color', errors')
           else Inr (AList.update u BLACK color', errors')))"
| "dfs_for adj path [] st = Inr (False, st)"
| "dfs_for adj path (v # vs) (color, errors) =
     (case map_of color v of
        None \<Rightarrow> dfs_for adj path vs (color, errors)
      | Some GRAY \<Rightarrow>
          (case index_of path v of
             None \<Rightarrow> Inl ValueError
           | Some cycle_start \<Rightarrow>
               Inr (True, color, errors @ [CycleDetected (drop cycle_start path @ [v])]))
      | Some WHITE \<Rightarrow>
          (case dfs adj v (path @ [v]) (color, errors) of
             Inl e \<Rightarrow> Inl e
           | Inr st' \<Rightarrow> dfs_for adj path vs st')
      | Some BLACK \<Rightarrow> dfs_for adj path vs (color, errors))"
  by pat_completeness auto

text \<open>Termination: a recursive call of \<^verbatim>\<open>dfs\<close> is made on a white node only, which it
  colours at once, and no node ever turns white again.\<close>

definition whites :: "(nid \<times> color) list \<Rightarrow> nid set" where
  "whites color = {k. map_of color k = Some WHITE}"

lemma finite_whites: "finite (whites color)"
proof -
  have "whites color \<subseteq> dom (map_of color)" by (auto simp: whites_def)
  then show ?thesis by (rule finite_subset) (rule finite_dom_map_of)
qed

lemma whites_update: "c \<noteq> WHITE \<Longrightarrow> whites (AList.update k c color) = whites color - {k}"
  by (auto simp: whites_def update_conv')


lemma dfs_whites_dom:
  "dfs_dfs_for_dom (Inl (adj, u, path, st)) \<Longrightarrow> dfs adj u path st = Inr st' \<Longrightarrow> whites (fst st') \<subseteq> whites (fst st) - {u}"
  "dfs_dfs_for_dom (Inr (adj, path, vs, st)) \<Longrightarrow> dfs_for adj path vs st = Inr (r, st'') \<Longrightarrow> whites (fst st'') \<subseteq> whites (fst st)"
proof (induction adj u path st and adj path vs st arbitrary: st' and r st'' rule: dfs_dfs_for.pinduct)
  case (1 adj u path color errors)
  then show ?case
    by (auto simp: dfs.psimps whites_update split: sum.splits if_splits prod.splits)
next
  case (2 adj path st)
  then show ?case by (simp add: dfs_for.psimps)
next
  case (3 adj path v vs color errors)
  show ?case
  proof (cases "map_of color v")
    case None
    with 3 show ?thesis by (simp add: dfs_for.psimps)
  next
    case (Some c)
    show ?thesis
    proof (cases c)
      case WHITE
      from 3(1) 3(6) Some WHITE obtain st1 where
        d: "dfs adj v (path @ [v]) (color, errors) = Inr st1" and
        f: "dfs_for adj path vs st1 = Inr (r, st'')"
        by (auto simp: dfs_for.psimps split: sum.splits)
      from 3(3) [OF Some WHITE d] have "whites (fst st1) \<subseteq> whites color - {v}" by simp
      moreover from 3(4) [OF Some WHITE d f] have "whites (fst st'') \<subseteq> whites (fst st1)" .
      ultimately show ?thesis by auto
    next
      case GRAY
      with 3(1) 3(6) Some show ?thesis
        by (auto simp: dfs_for.psimps split: option.splits)
    next
      case BLACK
      with 3 Some show ?thesis by (simp add: dfs_for.psimps)
    qed
  qed
qed


termination dfs
proof (relation "inv_image (less_than <*lex*> less_than)
         (\<lambda>x. case x of
                 Inl (adj, u, path, color, errors) \<Rightarrow>
                   (card (whites (AList.update u GRAY color)), length (adj_get adj u) + 2)
               | Inr (adj, path, vs, color, errors) \<Rightarrow> (card (whites color), length vs + 1))",
       goal_cases)
  case 1
  show ?case by (intro wf_inv_image wf_lex_prod wf_less_than)
next
  case (2 adj u path color errors)
  show ?case by simp
next
  case (3 adj path v vs color errors)
  show ?case by simp
next
  case (4 adj path v vs color errors x2)
  then have "v \<in> whites color" by (simp add: whites_def)
  then have "card (whites color - {v}) < card (whites color)"
    by (meson card_Diff1_less finite_whites)
  then show ?case by (simp add: whites_update)
next
  case (5 adj path v vs color errors x2 st')
  from dfs_whites_dom(1) [OF 5(4) 5(3)] have "whites (fst st') \<subseteq> whites color" by auto
  then have "card (whites (fst st')) \<le> card (whites color)"
    by (rule card_mono [OF finite_whites])
  then show ?case by (cases st') auto
next
  case (6 adj path v vs color errors x2)
  show ?case by simp
qed

text \<open>
  \<^verbatim>\<open>adj\<close> lists, for every node, its dependencies that exist in the graph, in the order
  and with the repetitions of \<^verbatim>\<open>depends_on\<close>; the roots are tried in dict order.
\<close>

definition validate_adjacency :: "graph \<Rightarrow> (nid \<times> nid list) list" where
  "validate_adjacency nodes = map (\<lambda>(k, n). (k, filter (has_id nodes) (get_deps_list n))) nodes"

fun dfs_roots :: "(nid \<times> nid list) list \<Rightarrow> nid list \<Rightarrow> dfs_state \<Rightarrow> exn + dfs_state" where
  "dfs_roots adj [] st = Inr st"
| "dfs_roots adj (k # ks) (color, errors) =
     (if map_of color k = Some WHITE
      then (case dfs adj k [k] (color, errors) of
              Inl e \<Rightarrow> Inl e
            | Inr st' \<Rightarrow> dfs_roots adj ks st')
      else dfs_roots adj ks (color, errors))"


text \<open>
  Check 7 searches the body for \<^verbatim>\<open>^## {section}\s*$\<close> in multi-line mode: a line that is
  the heading followed by white space only.
\<close>

fun split_lines :: "string \<Rightarrow> string list" where
  "split_lines [] = [[]]"
| "split_lines (c # cs) =
     (if c = CHR 0x0A then [] # split_lines cs
      else (case split_lines cs of [] \<Rightarrow> [[c]] | l # ls \<Rightarrow> (c # l) # ls))"

definition has_section :: "string \<Rightarrow> string \<Rightarrow> bool" where
  "has_section b section =
     list_ex (\<lambda>l. take (length (''## '' @ section)) l = ''## '' @ section
                  \<and> blank (drop (length (''## '' @ section)) l))
             (split_lines b)"

text \<open>
  The first loop of \<^verbatim>\<open>cmd_validate\<close> (checks 1 to 7) appends, for every node in ID order,
  the errors of \<open>node_errors\<close> and the warnings of \<open>node_warnings\<close>.
\<close>

definition node_errors :: "graph \<Rightarrow> nid \<Rightarrow> node \<Rightarrow> finding list" where
  "node_errors nodes k n =
     (if take 4 k = ''DEC-'' then [] else [BadPrefix k]) @
     (case level n of
        None \<Rightarrow> [MissingLevel k]
      | Some l \<Rightarrow> (if l \<in> set VALID_LEVELS then [] else [InvalidLevel k (VInt l)])) @
     (case state n of
        None \<Rightarrow> []
      | Some s \<Rightarrow> (if s \<noteq> [] \<and> s \<notin> set VALID_STATES then [InvalidState k s] else [])) @
     (case stakes n of
        None \<Rightarrow> []
      | Some s \<Rightarrow> (if s \<noteq> [] \<and> s \<notin> set VALID_STAKES then [InvalidStakes k (VStr s)] else [])) @
     concat (map (\<lambda>d. if has_id nodes d then [] else [NonExistentDep k d]) (get_deps_list n))"

definition node_warnings :: "nid \<Rightarrow> node \<Rightarrow> finding list" where
  "node_warnings k n =
     (if title n = None \<or> title n = Some [] then [MissingTitle k] else []) @
     (if date n = None \<or> date n = Some [] then [MissingDate k] else []) @
     (if state n = None \<or> state n = Some [] then [MissingState k] else []) @
     concat (map (\<lambda>section. if has_section (body n) section then [] else [MissingSection k section])
                 [''Decision'', ''Reasoning'', ''Assumptions'', ''Tradeoffs''])"

text \<open>Checks 9 and B5 (orphans) and check 12 (state health).\<close>

definition is_orphan :: "graph \<Rightarrow> nid \<Rightarrow> node \<Rightarrow> bool" where
  "is_orphan nodes k n = (get_deps_list n = [] \<and> get_dependents nodes k = [])"

definition state_health_errors :: "graph \<Rightarrow> nid \<Rightarrow> node \<Rightarrow> finding list" where
  "state_health_errors nodes k n =
     (if state n \<noteq> Some ''committed'' then []
      else concat (map (\<lambda>d. case map_of nodes d of
                               None \<Rightarrow> []
                             | Some dn \<Rightarrow>
                                 (if state dn = Some ''superseded'' then [UpstreamSuperseded k d]
                                  else if state dn = Some ''suggested'' then [UpstreamSuggested k d]
                                  else []))
                       (get_deps_list n)))"

text \<open>
  \<^verbatim>\<open>cmd_validate\<close> returns \<^verbatim>\<open>(errors, warnings)\<close>, or ends with the exception the cycle check
  raised. The body-text lint checks B1 to B4 and B6 are driven by regular expressions
  and by the project's configuration file; they append warnings only and are the
  parameter \<open>lint\<close>, applied to every node with a non-empty body.
\<close>

definition cmd_validate :: "(graph \<Rightarrow> nid \<Rightarrow> node \<Rightarrow> finding list) \<Rightarrow> graph
    \<Rightarrow> exn + (finding list \<times> finding list)" where
  "cmd_validate lint nodes =
     (let by_id = sort_key fst nodes;
          errors1 = concat (map (\<lambda>(k, n). node_errors nodes k n) by_id);
          warnings1 = concat (map (\<lambda>(k, n). node_warnings k n) by_id)
      in case dfs_roots (validate_adjacency nodes) (map fst nodes)
                (map (\<lambda>(k, n). (k, WHITE)) nodes, errors1) of
           Inl e \<Rightarrow> Inl e
         | Inr (color, errors8) \<Rightarrow>
             Inr (errors8
                  @ concat (map (\<lambda>(k, n). if scope n = Constitution
                                           then iron_rule_errors k (get_deps_list n) nodes else []) by_id)
                  @ concat (map (\<lambda>(k, n). state_health_errors nodes k n) by_id),
                  warnings1
                  @ concat (map (\<lambda>(k, n). if is_orphan nodes k n then [Orphan k] else []) by_id)
                  @ concat (map (\<lambda>(k, n). concat (map (\<lambda>d. case map_of nodes d of
                                                              None \<Rightarrow> []
                                                            | Some dn \<Rightarrow> level_inversion k (level n) d (level dn))
                                                      (get_deps_list n))) by_id)
                  @ concat (map (\<lambda>(k, n). if body n = [] then [] else lint nodes k n) by_id)
                  @ concat (map (\<lambda>(k, n). case level n of
                                             None \<Rightarrow> []
                                           | Some l \<Rightarrow> (if l \<ge> 2 \<and> get_deps_list n = [] \<and> \<not> is_orphan nodes k n
                                                        then [MissingDepWarning k l] else [])) by_id)))"

text \<open>
  What a cycle error should name: a closed walk along the forward edges, written as the
  source joins it, with the node that reappears at both ends.
\<close>

fun walk_in :: "(nid \<times> nid list) list \<Rightarrow> nid list \<Rightarrow> bool" where
  "walk_in adj (x # y # rest) = (y \<in> set (adj_get adj x) \<and> walk_in adj (y # rest))"
| "walk_in adj [x] = True"
| "walk_in adj [] = True"

definition is_cycle :: "(nid \<times> nid list) list \<Rightarrow> nid list \<Rightarrow> bool" where
  "is_cycle adj c = (length c \<ge> 2 \<and> hd c = last c \<and> walk_in adj c)"

fun is_cycle_error :: "finding \<Rightarrow> bool" where
  "is_cycle_error (CycleDetected c) = True"
| "is_cycle_error _ = False"

section \<open>Cascade propagation\<close>

text \<open>
  \<^verbatim>\<open>cmd_cascade\<close> and \<^verbatim>\<open>cmd_cascade_reverse\<close> are the same loop; they differ in the neighbours
  of a node (\<^verbatim>\<open>get_dependents(nodes, nid)\<close>, or the entries of
  \<^verbatim>\<open>get_deps_list(nodes.get(nid, {}))\<close> that are in the graph) and in the text of the reason.
  The flag \<open>reverse\<close> selects the second. The sets \<^verbatim>\<open>changed\<close>, \<^verbatim>\<open>visited\<close> and
  \<^verbatim>\<open>next_changed\<close> are lists read as sets; \<^verbatim>\<open>sorted(changed)\<close> is \<open>sort (remdups changed)\<close>.
  \<^verbatim>\<open>wave_step\<close> is the \<^verbatim>\<open>for nid in sorted(changed)\<close> loop of one wave, \<^verbatim>\<open>cascade_loop\<close> the
  \<^verbatim>\<open>while changed\<close> loop. The result \<open>None\<close> is the failure "not found in graph".
\<close>

datatype reason = DependsOn nid | DependedOnBy nid

record effect =
  node :: nid
  current_state :: string
  reason :: reason
  cross_directory :: bool

definition scope_or_project :: "graph \<Rightarrow> nid \<Rightarrow> scope" where
  "scope_or_project nodes k = (case map_of nodes k of None \<Rightarrow> Project | Some n \<Rightarrow> scope n)"

definition wave_neighbours :: "graph \<Rightarrow> bool \<Rightarrow> nid \<Rightarrow> nid list" where
  "wave_neighbours nodes reverse k =
     (if reverse
      then filter (has_id nodes) (case map_of nodes k of None \<Rightarrow> [] | Some n \<Rightarrow> get_deps_list n)
      else get_dependents nodes k)"

definition wave_effect :: "graph \<Rightarrow> bool \<Rightarrow> nid \<Rightarrow> nid \<Rightarrow> effect" where
  "wave_effect nodes reverse k dep_id =
     \<lparr>node = dep_id,
      current_state = (case map_of nodes dep_id of None \<Rightarrow> ''unknown'' | Some dn \<Rightarrow> state_or_unknown dn),
      reason = (if reverse then DependedOnBy k else DependsOn k),
      cross_directory = (scope_or_project nodes k \<noteq> scope_or_project nodes dep_id)\<rparr>"

fun wave_step :: "graph \<Rightarrow> bool \<Rightarrow> nid list \<Rightarrow> nid list \<times> effect list \<times> nid list
    \<Rightarrow> nid list \<times> effect list \<times> nid list" where
  "wave_step nodes reverse [] acc = acc"
| "wave_step nodes reverse (k # ks) (visited, wave_effects, next_changed) =
     (if k \<in> set visited then wave_step nodes reverse ks (visited, wave_effects, next_changed)
      else wave_step nodes reverse ks
             (k # visited,
              wave_effects @ map (wave_effect nodes reverse k)
                                 (filter (\<lambda>d. d \<notin> set (k # visited)) (wave_neighbours nodes reverse k)),
              next_changed @ filter (\<lambda>d. d \<notin> set (k # visited)) (wave_neighbours nodes reverse k)))"

function cascade_loop :: "graph \<Rightarrow> bool \<Rightarrow> nid list \<Rightarrow> nid list \<Rightarrow> nat \<Rightarrow> (nat \<times> effect list) list
    \<Rightarrow> (nat \<times> effect list) list" where
  "cascade_loop nodes reverse changed visited wave_num waves =
     (if changed = [] then waves
      else (case wave_step nodes reverse (sort (remdups changed)) (visited, [], []) of
              (visited', wave_effects, next_changed) \<Rightarrow>
                cascade_loop nodes reverse next_changed visited' (wave_num + 1)
                  (if wave_effects \<noteq> [] then waves @ [(wave_num + 1, wave_effects)] else waves)))"
  by pat_completeness auto

lemma get_dependents_keys: "set (get_dependents nodes k) \<subseteq> set (map fst nodes)"
proof
  fix x
  assume "x \<in> set (get_dependents nodes k)"
  then obtain n where "(x, n) \<in> set nodes"
    by (auto simp: get_dependents_def)
  then show "x \<in> set (map fst nodes)" by force
qed

lemma wave_neighbours_keys: "set (wave_neighbours nodes reverse k) \<subseteq> set (map fst nodes)"
  using get_dependents_keys [of nodes k] by (auto simp: wave_neighbours_def has_id_def)

lemma wave_step_visited:
  "wave_step nodes reverse ks (visited, es, nx) = (visited', es', nx') \<Longrightarrow> set visited' = set visited \<union> set ks"
  by (induction ks arbitrary: visited es nx) (auto split: if_splits)

lemma wave_step_next:
  "wave_step nodes reverse ks (visited, es, nx) = (visited', es', nx')
    \<Longrightarrow> set nx' \<subseteq> set nx \<union> set (map fst nodes)"
proof (induction ks arbitrary: visited es nx)
  case Nil
  then show ?case by auto
next
  case (Cons k ks)
  show ?case
  proof (cases "k \<in> set visited")
    case True
    with Cons show ?thesis by simp
  next
    case False
    with Cons.prems have "wave_step nodes reverse ks
             (k # visited,
              es @ map (wave_effect nodes reverse k)
                                 (filter (\<lambda>d. d \<notin> set (k # visited)) (wave_neighbours nodes reverse k)),
              nx @ filter (\<lambda>d. d \<notin> set (k # visited)) (wave_neighbours nodes reverse k)) = (visited', es', nx')"
      by simp
    from Cons.IH [OF this] wave_neighbours_keys [of nodes reverse k] show ?thesis by auto
  qed
qed

lemma wave_step_idle:
  "set ks \<subseteq> set visited \<Longrightarrow> wave_step nodes reverse ks (visited, es, nx) = (visited, es, nx)"
  by (induction ks) auto

termination cascade_loop
proof (relation "inv_image (finite_psubset <*lex*> less_than)
         (\<lambda>(nodes, reverse, changed, visited, wave_num, waves).
            ((set (map fst nodes) \<union> set changed) - set visited, length changed))", goal_cases)
  case 1
  show ?case by (intro wf_inv_image wf_lex_prod wf_finite_psubset wf_less_than)
next
  case (2 nodes reverse changed visited wave_num waves visited' y wave_effects next_changed)
  then have ws: "wave_step nodes reverse (sort (remdups changed)) (visited, [], []) = (visited', wave_effects, next_changed)"
    by simp
  from wave_step_visited [OF ws] have v: "set visited' = set visited \<union> set changed" by simp
  from wave_step_next [OF ws] have n: "set next_changed \<subseteq> set (map fst nodes)" by simp
  show ?case
  proof (cases "set changed \<subseteq> set visited")
    case True
    then have "wave_step nodes reverse (sort (remdups changed)) (visited, [], []) = (visited, [], [])"
      by (intro wave_step_idle) simp
    with ws have "next_changed = []" "visited' = visited" by simp_all
    with True 2(1) show ?thesis by auto
  next
    case False
    then obtain k where k: "k \<in> set changed" "k \<notin> set visited" by auto
    have "(set (map fst nodes) \<union> set next_changed) - set visited'
          \<subset> (set (map fst nodes) \<union> set changed) - set visited"
      using v n k by auto
    then show ?thesis by (simp add: finite_psubset_def)
  qed
qed

definition cmd_cascade :: "graph \<Rightarrow> nid \<Rightarrow> (nat \<times> effect list) list option" where
  "cmd_cascade nodes start_node =
     (if \<not> has_id nodes start_node then None
      else Some (cascade_loop nodes False [start_node] [] 0 []))"

definition cmd_cascade_reverse :: "graph \<Rightarrow> nid \<Rightarrow> (nat \<times> effect list) list option" where
  "cmd_cascade_reverse nodes start_node =
     (if \<not> has_id nodes start_node then None
      else Some (cascade_loop nodes True [start_node] [] 0 []))"

text \<open>The totals of the summary: all occurrences, and distinct nodes.\<close>

definition total_affected :: "(nat \<times> effect list) list \<Rightarrow> nat" where
  "total_affected waves = sum_list (map (\<lambda>(w, es). length es) waves)"

definition unique_affected :: "(nat \<times> effect list) list \<Rightarrow> nat" where
  "unique_affected waves = length (remdups (concat (map (\<lambda>(w, es). map node es) waves)))"

text \<open>
  What the waves are measured against: the edge from a node to each of its neighbours in
  the direction of the cascade, the nodes at shortest-path distance \<open>n\<close> from the start
  node (reachable in \<open>n\<close> steps and in no fewer), and the nodes named by the effects of the
  wave numbered \<open>n\<close>.
\<close>

definition wave_edges :: "graph \<Rightarrow> bool \<Rightarrow> (nid \<times> nid) set" where
  "wave_edges nodes reverse = {(x, y). y \<in> set (wave_neighbours nodes reverse x)}"

definition dist_set :: "('a \<times> 'a) set \<Rightarrow> 'a \<Rightarrow> nat \<Rightarrow> 'a set" where
  "dist_set E s n = {x. (s, x) \<in> E ^^ n \<and> (\<forall>m<n. (s, x) \<notin> E ^^ m)}"

definition at_distance :: "graph \<Rightarrow> bool \<Rightarrow> nid \<Rightarrow> nat \<Rightarrow> nid set" where
  "at_distance nodes reverse s n = dist_set (wave_edges nodes reverse) s n"

definition wave_nodes :: "(nat \<times> effect list) list \<Rightarrow> nat \<Rightarrow> nid set" where
  "wave_nodes waves n = {x. \<exists>es. (n, es) \<in> set waves \<and> x \<in> node ` set es}"

section \<open>Frontier analysis\<close>

text \<open>
  \<^verbatim>\<open>_compute_transitive_downstream\<close>: \<^verbatim>\<open>reverse_adj\<close> maps a dependency that exists in the graph
  to the set of nodes that list it; from every node a breadth-first search over it
  (\<^verbatim>\<open>queue.pop(0)\<close>, \<^verbatim>\<open>queue.extend(reverse_adj.get(current, set()) - visited)\<close>) collects
  \<^verbatim>\<open>visited\<close>, the node's transitive dependents.
\<close>

definition reverse_adjacency :: "graph \<Rightarrow> (nid \<times> nid list) list" where
  "reverse_adjacency nodes =
     map (\<lambda>(d, dn). (d, map fst (filter (\<lambda>(k, n). d \<in> set (get_deps_list n)) nodes))) nodes"

function downstream_bfs :: "(nid \<times> nid list) list \<Rightarrow> nid list \<Rightarrow> nid list \<Rightarrow> nid list" where
  "downstream_bfs reverse_adj [] visited = visited"
| "downstream_bfs reverse_adj (current # queue) visited =
     (if current \<in> set visited then downstream_bfs reverse_adj queue visited
      else downstream_bfs reverse_adj
             (queue @ filter (\<lambda>x. x \<notin> set (current # visited)) (adj_get reverse_adj current))
             (current # visited))"
  by pat_completeness auto

termination downstream_bfs
proof (relation "inv_image (finite_psubset <*lex*> less_than)
         (\<lambda>(reverse_adj, queue, visited). ((adj_range reverse_adj \<union> set queue) - set visited, length queue))",
       goal_cases)
  case 1
  show ?case by (intro wf_inv_image wf_lex_prod wf_finite_psubset wf_less_than)
next
  case (2 reverse_adj current queue visited)
  have "(adj_range reverse_adj \<union> set queue) - set visited
        \<subseteq> (adj_range reverse_adj \<union> set (current # queue)) - set visited"
    by auto
  then show ?case by (auto simp: finite_psubset_def finite_adj_range)
next
  case (3 reverse_adj current queue visited)
  have "(adj_range reverse_adj
          \<union> set (queue @ filter (\<lambda>x. x \<notin> set (current # visited)) (adj_get reverse_adj current)))
          - set (current # visited)
        \<subset> (adj_range reverse_adj \<union> set (current # queue)) - set visited"
    using 3 adj_get_range [of reverse_adj current] by auto
  then show ?case by (simp add: finite_psubset_def finite_adj_range)
qed

definition compute_transitive_downstream :: "graph \<Rightarrow> (nid \<times> nid list) list" where
  "compute_transitive_downstream nodes =
     map (\<lambda>(k, n). (k, downstream_bfs (reverse_adjacency nodes) (adj_get (reverse_adjacency nodes) k) []))
         nodes"

text \<open>
  \<^verbatim>\<open>d in nodes and nodes[d].get("state") != "committed"\<close>, the test of both the frontier and
  the critical path, and \<^verbatim>\<open>get_deps_list(nodes.get(current, {}))\<close>.
\<close>

definition uncommitted :: "graph \<Rightarrow> nid \<Rightarrow> bool" where
  "uncommitted nodes d =
     (case map_of nodes d of None \<Rightarrow> False | Some dn \<Rightarrow> state dn \<noteq> Some ''committed'')"

definition deps_of :: "graph \<Rightarrow> nid \<Rightarrow> nid list" where
  "deps_of nodes k = (case map_of nodes k of None \<Rightarrow> [] | Some n \<Rightarrow> get_deps_list n)"

text \<open>
  \<^verbatim>\<open>_critical_path\<close>: the state of the breadth-first search is \<^verbatim>\<open>visited\<close>, \<^verbatim>\<open>queue\<close> and the
  dicts \<^verbatim>\<open>depth\<close> and \<^verbatim>\<open>parent\<close>, in insertion order (\<^verbatim>\<open>max\<close> returns the first key of
  \<^verbatim>\<open>parent\<close> that has the greatest depth). \<^verbatim>\<open>cp_scan\<close> is the inner loop over the dependencies
  of the node taken from the queue, \<^verbatim>\<open>cp_bfs\<close> the \<^verbatim>\<open>while queue\<close> loop.
\<close>

type_synonym cp_state = "nid list \<times> (nid \<times> nat) list \<times> (nid \<times> nat) list \<times> (nid \<times> nid) list"

fun cp_scan :: "graph \<Rightarrow> nid \<Rightarrow> nat \<Rightarrow> nid list \<Rightarrow> cp_state \<Rightarrow> cp_state" where
  "cp_scan nodes current d [] st = st"
| "cp_scan nodes current d (dep_id # ds) (visited, queue, depth, parent) =
     (if uncommitted nodes dep_id \<and> dep_id \<notin> set visited
      then cp_scan nodes current d ds
             (dep_id # visited, queue @ [(dep_id, d + 1)],
              AList.update dep_id (d + 1) depth, AList.update dep_id current parent)
      else cp_scan nodes current d ds (visited, queue, depth, parent))"

function cp_bfs :: "graph \<Rightarrow> cp_state \<Rightarrow> (nid \<times> nat) list \<times> (nid \<times> nid) list" where
  "cp_bfs nodes (visited, [], depth, parent) = (depth, parent)"
| "cp_bfs nodes (visited, (current, d) # queue, depth, parent) =
     cp_bfs nodes (cp_scan nodes current d (deps_of nodes current) (visited, queue, depth, parent))"
  by pat_completeness auto

lemma uncommitted_key: "uncommitted nodes d \<Longrightarrow> d \<in> set (map fst nodes)"
  by (auto simp: uncommitted_def split: option.splits dest!: map_of_SomeD) force

lemma cp_scan_measure:
  "cp_scan nodes current d ds (visited, queue, depth, parent) = (visited', queue', depth', parent')
    \<Longrightarrow> (visited' = visited \<and> queue' = queue)
        \<or> (set (map fst nodes) - set visited' \<subset> set (map fst nodes) - set visited)"
proof (induction ds arbitrary: visited queue depth parent)
  case Nil
  then show ?case by simp
next
  case (Cons dep_id ds)
  show ?case
  proof (cases "uncommitted nodes dep_id \<and> dep_id \<notin> set visited")
    case True
    with Cons.prems have "cp_scan nodes current d ds
             (dep_id # visited, queue @ [(dep_id, d + 1)],
              AList.update dep_id (d + 1) depth, AList.update dep_id current parent)
            = (visited', queue', depth', parent')" by simp
    from Cons.IH [OF this] have "set (map fst nodes) - set visited' \<subseteq> set (map fst nodes) - set (dep_id # visited)"
      by auto
    moreover have "dep_id \<in> set (map fst nodes) - set visited" using True uncommitted_key by auto
    ultimately show ?thesis by auto
  next
    case False
    with Cons show ?thesis by simp
  qed
qed

termination cp_bfs
proof (relation "inv_image (finite_psubset <*lex*> less_than)
         (\<lambda>(nodes, visited, queue, depth, parent). (set (map fst nodes) - set visited, length queue))",
       goal_cases)
  case 1
  show ?case by (intro wf_inv_image wf_lex_prod wf_finite_psubset wf_less_than)
next
  case (2 nodes visited current d queue depth parent)
  obtain visited' queue' depth' parent' where
    s: "cp_scan nodes current d (deps_of nodes current) (visited, queue, depth, parent)
         = (visited', queue', depth', parent')"
    by (metis prod_cases4)
  from cp_scan_measure [OF s] show ?case by (auto simp: s finite_psubset_def)
qed

text \<open>
  \<^verbatim>\<open>max(parent.keys(), key=lambda n: depth[n])\<close> keeps the first of several greatest keys.
  Every key of \<^verbatim>\<open>parent\<close> is set together with its depth.
\<close>

fun first_max :: "('a \<Rightarrow> nat) \<Rightarrow> 'a \<Rightarrow> 'a list \<Rightarrow> 'a" where
  "first_max key best [] = best"
| "first_max key best (x # xs) = (if key x > key best then first_max key x xs else first_max key best xs)"

text \<open>
  The reconstruction \<^verbatim>\<open>while current != target_nid: path.append(current);
  current = parent.get(current, target_nid)\<close> follows parent pointers; on a dict of
  pointers that never reach the target it would not end, so its result is an option.
\<close>

partial_function (option) cp_walk :: "(nid \<times> nid) list \<Rightarrow> nid \<Rightarrow> nid \<Rightarrow> nid list \<Rightarrow> nid list option" where
  "cp_walk parent target_nid current path =
     (if current = target_nid then Some path
      else cp_walk parent target_nid
             (case map_of parent current of None \<Rightarrow> target_nid | Some p \<Rightarrow> p) (path @ [current]))"

declare cp_walk.simps [code]

definition critical_path :: "graph \<Rightarrow> nid \<Rightarrow> nid list option" where
  "critical_path nodes target_nid =
     (case cp_bfs nodes ([target_nid], [(target_nid, 0)], [(target_nid, 0)], []) of
        (depth, parent) \<Rightarrow>
          (if parent = [] then Some (filter (uncommitted nodes) (deps_of nodes target_nid))
           else cp_walk parent target_nid
                  (first_max (\<lambda>n. case map_of depth n of None \<Rightarrow> 0 | Some d \<Rightarrow> d)
                             (hd (map fst parent)) (tl (map fst parent)))
                  []))"

text \<open>
  \<^verbatim>\<open>cmd_frontier\<close>, the part that builds \<^verbatim>\<open>committable_now\<close> and \<^verbatim>\<open>blocked\<close> and sorts them
  (\<^verbatim>\<open>list.sort\<close> is stable, as \<open>sort_key\<close> is). An entry keeps the keys the partition and
  the two sort keys read (\<^verbatim>\<open>id\<close>, \<^verbatim>\<open>level\<close>, \<^verbatim>\<open>downstream_weight\<close>, and for a blocked node
  \<^verbatim>\<open>blockers\<close> and \<^verbatim>\<open>critical_path\<close>); title, stakes, scope and the list of downstream IDs are
  copied for display only. Level gaps, the high-weight ranking and the printing are not
  modelled.
\<close>

record entry =
  e_id :: nid
  e_level :: "int option"
  e_weight :: nat

record blocked_entry = entry +
  b_blockers :: "nid list"
  b_critical_path :: "nid list"

fun frontier_scan :: "graph \<Rightarrow> (nid \<times> nid list) list \<Rightarrow> (nid \<times> node) list
    \<Rightarrow> entry list \<times> blocked_entry list \<Rightarrow> (entry list \<times> blocked_entry list) option" where
  "frontier_scan nodes downstream [] acc = Some acc"
| "frontier_scan nodes downstream ((k, n) # rest) (committable_now, blocked) =
     (if state_or_unknown n \<noteq> ''suggested'' then frontier_scan nodes downstream rest (committable_now, blocked)
      else if filter (uncommitted nodes) (get_deps_list n) = []
      then frontier_scan nodes downstream rest
             (committable_now @ [\<lparr>e_id = k, e_level = level n, e_weight = length (adj_get downstream k)\<rparr>],
              blocked)
      else (case critical_path nodes k of
              None \<Rightarrow> None
            | Some p \<Rightarrow>
                frontier_scan nodes downstream rest
                  (committable_now,
                   blocked @ [\<lparr>e_id = k, e_level = level n, e_weight = length (adj_get downstream k),
                               b_blockers = filter (uncommitted nodes) (get_deps_list n),
                               b_critical_path = p\<rparr>])))"

definition cmd_frontier :: "graph \<Rightarrow> (entry list \<times> blocked_entry list) option" where
  "cmd_frontier nodes =
     (case frontier_scan nodes (compute_transitive_downstream nodes) (sort_key fst nodes) ([], []) of
        None \<Rightarrow> None
      | Some (committable_now, blocked) \<Rightarrow>
          Some (sort_key (\<lambda>x. (- int (e_weight x),
                               (case e_level x of None \<Rightarrow> 99 | Some l \<Rightarrow> if l = 0 then 99 else l)))
                         committable_now,
                sort_key (\<lambda>x. (int (length (b_critical_path x)), - int (e_weight x))) blocked))"

text \<open>Every dependency of the node that is present in the graph is committed
  (\<^verbatim>\<open>uncommitted_deps\<close> is empty).\<close>

definition deps_committed :: "graph \<Rightarrow> node \<Rightarrow> bool" where
  "deps_committed nodes n = (filter (uncommitted nodes) (get_deps_list n) = [])"

text \<open>A chain of dependencies that leads to the target: every node is listed as a
  dependency by the next one, the last by the target.\<close>

fun dep_chain :: "graph \<Rightarrow> nid list \<Rightarrow> nid \<Rightarrow> bool" where
  "dep_chain nodes [] t = True"
| "dep_chain nodes [x] t = (x \<in> set (deps_of nodes t))"
| "dep_chain nodes (x # y # rest) t = (x \<in> set (deps_of nodes y) \<and> dep_chain nodes (y # rest) t)"

text \<open>The node is in the suggested state.\<close>

definition suggested :: "node \<Rightarrow> bool" where
  "suggested n = (state n = Some ''suggested'')"

section \<open>Loading the graph\<close>

text \<open>
  \<^verbatim>\<open>load_graph\<close> reads the files \<^verbatim>\<open>DEC-*.md\<close> of the constitution directory, when that
  directory exists, and then those of the project directory, each in sorted path order.
  A file is its path and what \<^verbatim>\<open>parse_frontmatter\<close> returns for it: \<open>None\<close> when there is no
  (or an empty) frontmatter, otherwise the value of the key \<^verbatim>\<open>id\<close> (if present) and the
  other fields. A record whose ID is already loaded ends the process (\<^verbatim>\<open>sys.exit(1)\<close>).
\<close>

type_synonym record_file = "string \<times> (nid option \<times> node) option"

fun load_files :: "scope \<Rightarrow> record_file list \<Rightarrow> graph \<Rightarrow> exn + graph" where
  "load_files sc [] nodes = Inr nodes"
| "load_files sc ((filepath, fm) # files) nodes =
     (case fm of
        Some (Some k, n) \<Rightarrow>
          (if has_id nodes k then Inl SystemExit
           else load_files sc files (nodes @ [(k, n\<lparr>scope := sc\<rparr>)]))
      | _ \<Rightarrow> load_files sc files nodes)"

definition load_graph :: "record_file list option \<Rightarrow> record_file list \<Rightarrow> exn + graph" where
  "load_graph constitution_dir dna_dir =
     (case (case constitution_dir of
              None \<Rightarrow> Inr []
            | Some files \<Rightarrow> load_files Constitution (sort_key fst files) []) of
        Inl e \<Rightarrow> Inl e
      | Inr nodes \<Rightarrow> load_files Project (sort_key fst dna_dir) nodes)"

text \<open>The IDs of the records a directory contributes: files with a frontmatter that has
  the key \<^verbatim>\<open>id\<close>.\<close>

definition record_id :: "record_file \<Rightarrow> nid option" where
  "record_id f = (case snd f of None \<Rightarrow> None | Some (i, n) \<Rightarrow> i)"

definition loaded_ids :: "record_file list \<Rightarrow> nid list" where
  "loaded_ids files = List.map_filter record_id files"

definition dir_files :: "record_file list option \<Rightarrow> record_file list" where
  "dir_files d = (case d of None \<Rightarrow> [] | Some files \<Rightarrow> files)"

section \<open>Example records\<close>

text \<open>A complete decision record in a given state, with plain string dependencies.\<close>

definition decision :: "string \<Rightarrow> nid list \<Rightarrow> scope \<Rightarrow> node" where
  "decision st ds sc =
     \<lparr>title = Some ''Title'', date = Some ''2026-01-01'', level = Some 1, state = Some st,
      stakes = None, depends_on = map DepStr ds, scope = sc, body = []\<rparr>"

section \<open>Evaluation rules\<close>

lemmas validate_eval = cmd_validate_def node_errors_def node_warnings_def validate_adjacency_def
  get_deps_list_def List.map_filter_simps has_id_def decision_def adj_get_def VALID_LEVELS_def
  VALID_STATES_def VALID_STAKES_def iron_rule_errors_def state_health_errors_def is_orphan_def
  get_dependents_def level_inversion_def has_section_def blank_def

section \<open>State transitions and loading: auxiliary facts\<close>

lemma set_state_errors_empty:
  "set_state_errors k n (VStr new) nodes = [] \<longleftrightarrow>
     ((case state n of None \<Rightarrow> ''suggested'' | Some s \<Rightarrow> s) = new
        \<or> (VStr (case state n of None \<Rightarrow> ''suggested'' | Some s \<Rightarrow> s), VStr new) \<in> set LEGAL_TRANSITIONS)
     \<and> (new = ''committed'' \<longrightarrow> deps_committed nodes n)"
proof -
  have c: "(concat (map (\<lambda>d. case map_of nodes d of
                                 None \<Rightarrow> []
                               | Some dn \<Rightarrow> (if state_or_unknown dn \<noteq> ''committed''
                                            then [CannotCommit k d (state_or_unknown dn)]
                                            else [])) ds) = [])
           = (filter (uncommitted nodes) ds = [])" for ds
    by (induction ds) (auto simp: uncommitted_def state_or_unknown_def split: option.splits)
  show ?thesis
    unfolding set_state_errors_def Let_def deps_committed_def
    by (auto simp add: validate_transition_def c simp del: concat_eq_Nil_conv)
qed

lemma load_files_result:
  "load_files sc files nodes =
     (if distinct (loaded_ids files) \<and> set (loaded_ids files) \<inter> set (map fst nodes) = {}
      then Inr (nodes @ List.map_filter (\<lambda>f. case snd f of
                                                None \<Rightarrow> None
                                              | Some (None, n) \<Rightarrow> None
                                              | Some (Some i, n) \<Rightarrow> Some (i, n\<lparr>scope := sc\<rparr>)) files)
      else Inl SystemExit)"
proof (induction files arbitrary: nodes)
  case Nil
  show ?case by (simp add: loaded_ids_def List.map_filter_simps)
next
  case (Cons f files)
  obtain filepath fm where f: "f = (filepath, fm)" by (cases f)
  show ?case
  proof (cases fm)
    case None
    with f Cons show ?thesis by (simp add: loaded_ids_def List.map_filter_simps record_id_def)
  next
    case (Some r)
    obtain i n where r: "r = (i, n)" by (cases r)
    show ?thesis
    proof (cases i)
      case None
      with f Some r Cons show ?thesis by (simp add: loaded_ids_def List.map_filter_simps record_id_def)
    next
      case (Some k)
      with f \<open>fm = Some r\<close> r Cons [of "nodes @ [(k, n\<lparr>scope := sc\<rparr>)]"] show ?thesis
        by (auto simp: loaded_ids_def List.map_filter_simps record_id_def has_id_def)
    qed
  qed
qed

lemma loaded_ids_sort: "mset (loaded_ids (sort_key fst files)) = mset (loaded_ids files)"
  by (simp add: loaded_ids_def List.map_filter_def)

lemma map_fst_loaded:
  "map fst (List.map_filter (\<lambda>f. case snd f of
                                                None \<Rightarrow> None
                                              | Some (None, n) \<Rightarrow> None
                                              | Some (Some i, n) \<Rightarrow> Some (i, n\<lparr>scope := sc\<rparr>)) files) = loaded_ids files"
  by (induction files) (auto simp: loaded_ids_def List.map_filter_simps record_id_def split: option.splits)

lemma mset_fst_loaded:
  "image_mset fst (mset (List.map_filter (\<lambda>f. case snd f of
                                                None \<Rightarrow> None
                                              | Some (None, n) \<Rightarrow> None
                                              | Some (Some i, n) \<Rightarrow> Some (i, n\<lparr>scope := sc\<rparr>)) files))
     = mset (loaded_ids files)"
  using map_fst_loaded [of sc files] by (metis mset_map)

lemma set_fst_loaded:
  "fst ` set (List.map_filter (\<lambda>f. case snd f of
                                                None \<Rightarrow> None
                                              | Some (None, n) \<Rightarrow> None
                                              | Some (Some i, n) \<Rightarrow> Some (i, n\<lparr>scope := sc\<rparr>)) files)
     = set (loaded_ids files)"
  using map_fst_loaded [of sc files] by (metis set_map)

section \<open>Cycle detection: auxiliary facts\<close>

lemma walk_in_snoc:
  "walk_in adj p \<Longrightarrow> p \<noteq> [] \<Longrightarrow> v \<in> set (adj_get adj (last p)) \<Longrightarrow> walk_in adj (p @ [v])"
  by (induction adj p rule: walk_in.induct) auto

lemma walk_in_tl: "walk_in adj p \<Longrightarrow> walk_in adj (tl p)"
  by (induction adj p rule: walk_in.induct) auto

lemma walk_in_drop: "walk_in adj p \<Longrightarrow> walk_in adj (drop i p)"
proof (induction i arbitrary: p)
  case 0
  then show ?case by simp
next
  case (Suc i)
  from Suc.IH [OF walk_in_tl [OF Suc.prems]] show ?case by (simp add: drop_Suc)
qed

lemma index_of_Some: "index_of p v = Some i \<Longrightarrow> i < length p \<and> p ! i = v"
proof (induction p arbitrary: i)
  case Nil
  then show ?case by simp
next
  case (Cons x p)
  then show ?case by (cases "x = v") auto
qed

lemma index_of_None: "index_of p v = None \<longleftrightarrow> v \<notin> set p"
  by (induction p) auto

lemma reported_cycle:
  assumes "walk_in adj p" and "p \<noteq> []" and "v \<in> set (adj_get adj (last p))"
    and "index_of p v = Some i"
  shows "is_cycle adj (drop i p @ [v])"
proof -
  from index_of_Some [OF assms(4)] have i: "i < length p" "p ! i = v" by simp_all
  then have d: "drop i p \<noteq> []" by simp
  have "hd (drop i p) = v" using i by (simp add: hd_drop_conv_nth)
  moreover have "last (drop i p) = last p" using i by simp
  moreover have "walk_in adj (drop i p @ [v])"
    using walk_in_drop [OF assms(1)] d assms(3) i by (intro walk_in_snoc) simp_all
  moreover have "2 \<le> length (drop i p @ [v])" using i by simp
  ultimately show ?thesis using d by (simp add: is_cycle_def)
qed

lemma dfs_reports:
  "walk_in adj p \<Longrightarrow> p \<noteq> [] \<Longrightarrow> last p = u \<Longrightarrow> dfs adj u p st = Inr st'
     \<Longrightarrow> \<exists>new. snd st' = snd st @ new \<and> list_all (\<lambda>f. \<exists>c. f = CycleDetected c \<and> is_cycle adj c) new"
  "walk_in adj p \<Longrightarrow> p \<noteq> [] \<Longrightarrow> set vs \<subseteq> set (adj_get adj (last p)) \<Longrightarrow> dfs_for adj p vs st = Inr (r, st'')
     \<Longrightarrow> \<exists>new. snd st'' = snd st @ new \<and> list_all (\<lambda>f. \<exists>c. f = CycleDetected c \<and> is_cycle adj c) new"
proof (induction adj u p st and adj p vs st arbitrary: st' and r st'' rule: dfs_dfs_for.induct)
  case (1 adj u path color errors)
  from 1(5) obtain r c e where
    f: "dfs_for adj path (adj_get adj u) (AList.update u GRAY color, errors) = Inr (r, c, e)"
    and s: "snd st' = e"
    by (auto split: sum.splits if_splits)
  from 1(1) [OF 1(2) 1(3) _ f] 1(4) s show ?case by simp
next
  case (2 adj path st)
  then show ?case by simp
next
  case (3 adj path v vs color errors)
  from 3(7) have v: "v \<in> set (adj_get adj (last path))" and vs: "set vs \<subseteq> set (adj_get adj (last path))"
    by simp_all
  show ?case
  proof (cases "map_of color v")
    case None
    with 3(1) [OF None 3(5) 3(6) vs] 3(8) show ?thesis by simp
  next
    case (Some col)
    show ?thesis
    proof (cases col)
      case WHITE
      from 3(8) Some WHITE obtain st1 where
        d: "dfs adj v (path @ [v]) (color, errors) = Inr st1" and
        f: "dfs_for adj path vs st1 = Inr (r, st'')"
        by (auto split: sum.splits)
      have w: "walk_in adj (path @ [v])" using 3(5) 3(6) v by (rule walk_in_snoc)
      from 3(2) [OF Some WHITE w _ _ d] obtain new1 where
        n1: "snd st1 = errors @ new1" "list_all (\<lambda>f. \<exists>c. f = CycleDetected c \<and> is_cycle adj c) new1"
        by auto
      from 3(3) [OF Some WHITE d 3(5) 3(6) vs f] obtain new2 where
        n2: "snd st'' = snd st1 @ new2" "list_all (\<lambda>f. \<exists>c. f = CycleDetected c \<and> is_cycle adj c) new2"
        by auto
      from n1 n2 have "snd st'' = errors @ (new1 @ new2)"
        "list_all (\<lambda>f. \<exists>c. f = CycleDetected c \<and> is_cycle adj c) (new1 @ new2)" by simp_all
      then show ?thesis by (intro exI [of _ "new1 @ new2"]) simp
    next
      case GRAY
      from 3(8) Some GRAY obtain i where
        i: "index_of path v = Some i" and e: "snd st'' = errors @ [CycleDetected (drop i path @ [v])]"
        by (auto split: option.splits)
      from reported_cycle [OF 3(5) 3(6) v i] e show ?thesis
        by (intro exI [of _ "[CycleDetected (drop i path @ [v])]"]) simp
    next
      case BLACK
      with 3(4) [OF Some BLACK 3(5) 3(6) vs] 3(8) Some show ?thesis by simp
    qed
  qed
qed

lemma dfs_roots_reports:
  "dfs_roots adj ks st = Inr st'
     \<Longrightarrow> \<exists>new. snd st' = snd st @ new \<and> list_all (\<lambda>f. \<exists>c. f = CycleDetected c \<and> is_cycle adj c) new"
proof (induction adj ks st arbitrary: st' rule: dfs_roots.induct)
  case (1 adj st)
  then show ?case by simp
next
  case (2 adj k ks color errors)
  show ?case
  proof (cases "map_of color k = Some WHITE")
    case True
    with 2(3) obtain st1 where
      d: "dfs adj k [k] (color, errors) = Inr st1" and r: "dfs_roots adj ks st1 = Inr st'"
      by (auto split: sum.splits)
    from dfs_reports(1) [OF _ _ _ d] obtain new1 where
      n1: "snd st1 = errors @ new1" "list_all (\<lambda>f. \<exists>c. f = CycleDetected c \<and> is_cycle adj c) new1"
      by auto
    from 2(1) [OF True d r] obtain new2 where
      n2: "snd st' = snd st1 @ new2" "list_all (\<lambda>f. \<exists>c. f = CycleDetected c \<and> is_cycle adj c) new2"
      by auto
    from n1 n2 have "snd st' = errors @ (new1 @ new2)"
      "list_all (\<lambda>f. \<exists>c. f = CycleDetected c \<and> is_cycle adj c) (new1 @ new2)" by simp_all
    then show ?thesis by (intro exI [of _ "new1 @ new2"]) simp
  next
    case False
    with 2(2) [OF False] 2(3) show ?thesis by simp
  qed
qed

lemma no_cycle_error_node: "filter is_cycle_error (node_errors nodes k n) = []"
  by (auto simp: node_errors_def filter_empty_conv split: option.splits)

lemma no_cycle_error_iron: "filter is_cycle_error (iron_rule_errors k ds nodes) = []"
  by (auto simp: iron_rule_errors_def filter_empty_conv split: option.splits if_splits)

lemma no_cycle_error_health: "filter is_cycle_error (state_health_errors nodes k n) = []"
  by (auto simp: state_health_errors_def filter_empty_conv split: option.splits if_splits)

lemma filter_concat_empty:
  "(\<And>x. x \<in> set xs \<Longrightarrow> filter P (f x) = []) \<Longrightarrow> filter P (concat (map f xs)) = []"
  by (induction xs) auto

lemma cmd_validate_cycle_errors:
  assumes "cmd_validate lint nodes = Inr (es, ws)"
  shows "\<exists>new. filter is_cycle_error es = new
           \<and> list_all (\<lambda>f. \<exists>c. f = CycleDetected c \<and> is_cycle (validate_adjacency nodes) c) new"
proof -
  let ?by_id = "sort_key fst nodes"
  let ?e1 = "concat (map (\<lambda>(k, n). node_errors nodes k n) ?by_id)"
  let ?iron = "concat (map (\<lambda>(k, n). if scope n = Constitution
                                           then iron_rule_errors k (get_deps_list n) nodes else []) ?by_id)"
  let ?health = "concat (map (\<lambda>(k, n). state_health_errors nodes k n) ?by_id)"
  from assms obtain col e8 where
    d: "dfs_roots (validate_adjacency nodes) (map fst nodes) (map (\<lambda>(k, n). (k, WHITE)) nodes, ?e1) = Inr (col, e8)"
    and es: "es = e8 @ ?iron @ ?health"
    by (auto simp: cmd_validate_def Let_def split: sum.splits)
  from dfs_roots_reports [OF d] obtain new where
    n: "e8 = ?e1 @ new" "list_all (\<lambda>f. \<exists>c. f = CycleDetected c \<and> is_cycle (validate_adjacency nodes) c) new"
    by auto
  have 1: "filter is_cycle_error ?e1 = []"
    by (rule filter_concat_empty) (auto simp: no_cycle_error_node)
  have 2: "filter is_cycle_error ?iron = []"
    by (rule filter_concat_empty) (auto simp: no_cycle_error_iron)
  have 3: "filter is_cycle_error ?health = []"
    by (rule filter_concat_empty) (auto simp: no_cycle_error_health)
  have "filter is_cycle_error new = new"
    using n(2) by (induction new) auto
  with es n 1 2 3 have "filter is_cycle_error es = new" by simp
  with n(2) show ?thesis by simp
qed

section \<open>Critical path: the search keeps its parent pointers well-founded\<close>

text \<open>The invariant of the breadth-first search of \<^verbatim>\<open>_critical_path\<close>: visited is the target
  plus the keys of \<^verbatim>\<open>parent\<close>, every visited node has a depth, and a parent pointer leads
  from a non-committed dependency to the node that lists it, one level up.\<close>

definition cp_inv :: "graph \<Rightarrow> nid \<Rightarrow> cp_state \<Rightarrow> bool" where
  "cp_inv nodes t st = (case st of (visited, queue, depth, parent) \<Rightarrow>
     set visited = insert t (fst ` set parent) \<and> t \<notin> fst ` set parent \<and>
     dom (map_of depth) = set visited \<and>
     (\<forall>c d. (c, d) \<in> set queue \<longrightarrow> map_of depth c = Some d) \<and>
     (\<forall>x p. map_of parent x = Some p \<longrightarrow>
         (\<exists>dp. map_of depth p = Some dp \<and> map_of depth x = Some (Suc dp))
         \<and> uncommitted nodes x \<and> x \<in> set (deps_of nodes p)))"

lemma cp_scan_inv:
  assumes "cp_inv nodes t (visited, queue, depth, parent)" "map_of depth current = Some d"
    "set ds \<subseteq> set (deps_of nodes current)"
  shows "cp_inv nodes t (cp_scan nodes current d ds (visited, queue, depth, parent))"
  using assms
proof (induction ds arbitrary: visited queue depth parent)
  case Nil
  then show ?case by simp
next
  case (Cons dep_id ds)
  show ?case
  proof (cases "uncommitted nodes dep_id \<and> dep_id \<notin> set visited")
    case False
    with Cons show ?thesis by auto
  next
    case True
    from Cons.prems(1) have v: "set visited = insert t (fst ` set parent)" "t \<notin> fst ` set parent"
      "dom (map_of depth) = set visited"
      and q: "\<And>c d. (c, d) \<in> set queue \<Longrightarrow> map_of depth c = Some d"
      and p: "\<And>x p. map_of parent x = Some p \<Longrightarrow>
         (\<exists>dp. map_of depth p = Some dp \<and> map_of depth x = Some (Suc dp))
         \<and> uncommitted nodes x \<and> x \<in> set (deps_of nodes p)"
      by (auto simp: cp_inv_def)
    from True v have nt: "dep_id \<noteq> t" by auto
    from True v(3) have nd: "map_of depth dep_id = None" by auto
    from Cons.prems(2) nd have nc: "dep_id \<noteq> current" by auto
    have "cp_inv nodes t (dep_id # visited, queue @ [(dep_id, d + 1)],
              AList.update dep_id (d + 1) depth, AList.update dep_id current parent)"
      unfolding cp_inv_def prod.case
    proof (intro conjI allI impI)
      show "set (dep_id # visited) = insert t (fst ` set (AList.update dep_id current parent))"
        using v(1) by (auto simp: dom_update)
      show "t \<notin> fst ` set (AList.update dep_id current parent)"
        using v(2) nt by (auto simp: dom_update)
      show "dom (map_of (AList.update dep_id (d + 1) depth)) = set (dep_id # visited)"
        using v(3) by (auto simp: update_conv')
    next
      fix c d'
      assume "(c, d') \<in> set (queue @ [(dep_id, d + 1)])"
      then show "map_of (AList.update dep_id (d + 1) depth) c = Some d'"
        using q [of c d'] nd by (auto simp: update_conv')
    next
      fix x p'
      assume a: "map_of (AList.update dep_id current parent) x = Some p'"
      show "\<exists>dp. map_of (AList.update dep_id (d + 1) depth) p' = Some dp \<and>
              map_of (AList.update dep_id (d + 1) depth) x = Some (Suc dp)"
      proof (cases "x = dep_id")
        case True
        with a have "p' = current" by (simp add: update_conv')
        with True Cons.prems(2) nc show ?thesis by (simp add: update_conv')
      next
        case False
        with a have "map_of parent x = Some p'" by (simp add: update_conv')
        from p [OF this] obtain dp where "map_of depth p' = Some dp" "map_of depth x = Some (Suc dp)"
          by auto
        with nd show ?thesis by (auto simp: update_conv')
      qed
      show "uncommitted nodes x"
        using a True p [of x p'] by (cases "x = dep_id") (auto simp: update_conv')
      show "x \<in> set (deps_of nodes p')"
        using a p [of x p'] Cons.prems(3) by (cases "x = dep_id") (auto simp: update_conv')
    qed
    moreover have "map_of (AList.update dep_id (d + 1) depth) current = Some d"
      using Cons.prems(2) nc by (simp add: update_conv')
    moreover have "set ds \<subseteq> set (deps_of nodes current)" using Cons.prems(3) by simp
    ultimately have "cp_inv nodes t (cp_scan nodes current d ds (dep_id # visited, queue @ [(dep_id, d + 1)],
              AList.update dep_id (d + 1) depth, AList.update dep_id current parent))"
      by (rule Cons.IH)
    with True show ?thesis by simp
  qed
qed

lemma cp_bfs_inv:
  "cp_inv nodes t st \<Longrightarrow> cp_bfs nodes st = (depth', parent')
     \<Longrightarrow> \<exists>visited'. cp_inv nodes t (visited', [], depth', parent')"
proof (induction nodes st rule: cp_bfs.induct)
  case (1 nodes visited depth parent)
  then show ?case by auto
next
  case (2 nodes visited current d queue depth parent)
  from 2(2) have i: "cp_inv nodes t (visited, queue, depth, parent)" and c: "map_of depth current = Some d"
    by (auto simp: cp_inv_def)
  have "cp_inv nodes t (cp_scan nodes current d (deps_of nodes current) (visited, queue, depth, parent))"
    using i c by (rule cp_scan_inv) simp
  from 2(1) [OF this] 2(3) show ?case by simp
qed

lemma cp_inv_init: "cp_inv nodes t ([t], [(t, 0)], [(t, 0)], [])"
  by (simp add: cp_inv_def)

text \<open>The parent chain from a node to the target, as the reconstruction loop walks it.\<close>

fun parent_chain :: "(nid \<times> nid) list \<Rightarrow> nid \<Rightarrow> nid \<Rightarrow> nid list \<Rightarrow> bool" where
  "parent_chain parent t cur [] = (cur = t)"
| "parent_chain parent t cur (x # xs) =
     (cur \<noteq> t \<and> x = cur \<and> parent_chain parent t (case map_of parent cur of None \<Rightarrow> t | Some p \<Rightarrow> p) xs)"

lemma cp_walk_returns:
  assumes "\<And>x p. map_of parent x = Some p \<Longrightarrow>
             \<exists>dp. map_of depth p = Some dp \<and> map_of depth x = Some (Suc dp)"
  shows "map_of depth cur = Some n
     \<Longrightarrow> \<exists>chain. cp_walk parent t cur path = Some (path @ chain) \<and> parent_chain parent t cur chain"
proof (induction n arbitrary: cur path)
  case 0
  show ?case
  proof (cases "cur = t")
    case True
    then show ?thesis by (subst cp_walk.simps) (auto intro: exI [of _ "[]"])
  next
    case False
    have "map_of parent cur = None"
    proof (cases "map_of parent cur")
      case (Some p)
      from assms [OF Some] 0 show ?thesis by auto
    qed simp
    with False have "cp_walk parent t cur path = Some (path @ [cur])"
      by (subst cp_walk.simps, simp, subst cp_walk.simps, simp)
    moreover have "parent_chain parent t cur [cur]"
      using False \<open>map_of parent cur = None\<close> by simp
    ultimately show ?thesis by blast
  qed
next
  case (Suc n)
  show ?case
  proof (cases "cur = t")
    case True
    then show ?thesis by (subst cp_walk.simps) (auto intro: exI [of _ "[]"])
  next
    case False
    show ?thesis
    proof (cases "map_of parent cur")
      case None
      with False have "cp_walk parent t cur path = Some (path @ [cur])"
        by (subst cp_walk.simps, simp, subst cp_walk.simps, simp)
      moreover have "parent_chain parent t cur [cur]"
        using False None by simp
      ultimately show ?thesis by blast
    next
      case (Some p)
      from assms [OF Some] Suc.prems have "map_of depth p = Some n" by auto
      from Suc.IH [OF this, of "path @ [cur]"] obtain chain where
        c: "cp_walk parent t p (path @ [cur]) = Some ((path @ [cur]) @ chain)" "parent_chain parent t p chain"
        by blast
      have "cp_walk parent t cur path = cp_walk parent t p (path @ [cur])"
        using False Some by (subst cp_walk.simps) simp
      with c have "cp_walk parent t cur path = Some (path @ (cur # chain))" by simp
      moreover have "parent_chain parent t cur (cur # chain)" using False Some c(2) by simp
      ultimately show ?thesis by blast
    qed
  qed
qed

lemma first_max_in: "first_max key b xs \<in> set (b # xs)"
  by (induction xs arbitrary: b) auto

lemma parent_chain_props:
  assumes "cp_inv nodes t (visited, [], depth, parent)"
  shows "parent_chain parent t cur chain \<Longrightarrow> cur \<in> set visited
     \<Longrightarrow> t \<notin> set chain \<and> list_all (uncommitted nodes) chain \<and> dep_chain nodes chain t"
proof (induction chain arbitrary: cur)
  case Nil
  then show ?case by simp
next
  case (Cons x xs)
  from assms have v: "set visited = insert t (fst ` set parent)" "dom (map_of depth) = set visited"
    and p: "\<And>x p. map_of parent x = Some p \<Longrightarrow>
         (\<exists>dp. map_of depth p = Some dp \<and> map_of depth x = Some (Suc dp))
         \<and> uncommitted nodes x \<and> x \<in> set (deps_of nodes p)"
    by (auto simp: cp_inv_def)
  from Cons.prems(1) have c: "cur \<noteq> t" "x = cur" by simp_all
  with Cons.prems(2) v(1) have "cur \<in> fst ` set parent" by auto
  then obtain q where q: "map_of parent cur = Some q"
    by (metis map_of_eq_None_iff not_Some_eq)
  from p [OF q] have u: "uncommitted nodes cur" "cur \<in> set (deps_of nodes q)" and "q \<in> dom (map_of depth)"
    by auto
  with v(2) have qv: "q \<in> set visited" by simp
  from Cons.prems(1) q have pc: "parent_chain parent t q xs" by simp
  from Cons.IH [OF pc qv] have ih: "t \<notin> set xs" "list_all (uncommitted nodes) xs" "dep_chain nodes xs t"
    by simp_all
  have "dep_chain nodes (cur # xs) t"
  proof (cases xs)
    case Nil
    with pc have "q = t" by simp
    with u Nil show ?thesis by simp
  next
    case (Cons y ys)
    with pc have "y = q" by simp
    with u ih(3) Cons show ?thesis by simp
  qed
  with c ih u show ?case by simp
qed

lemma critical_path_cases:
  obtains (direct) "critical_path nodes t = Some (filter (uncommitted nodes) (deps_of nodes t))"
      and "snd (cp_bfs nodes ([t], [(t, 0)], [(t, 0)], [])) = []"
    | (chain) p where "critical_path nodes t = Some p" "p \<noteq> []" "t \<notin> set p"
      "list_all (uncommitted nodes) p" "dep_chain nodes p t"
proof -
  obtain depth parent where b: "cp_bfs nodes ([t], [(t, 0)], [(t, 0)], []) = (depth, parent)"
    by (cases "cp_bfs nodes ([t], [(t, 0)], [(t, 0)], [])")
  from cp_bfs_inv [OF cp_inv_init b] obtain visited where i: "cp_inv nodes t (visited, [], depth, parent)"
    by blast
  show ?thesis
  proof (cases "parent = []")
    case True
    with b have "critical_path nodes t = Some (filter (uncommitted nodes) (deps_of nodes t))"
      by (simp add: critical_path_def)
    with True b show ?thesis by (intro direct) simp_all
  next
    case False
    define deepest where "deepest = first_max (\<lambda>n. case map_of depth n of None \<Rightarrow> 0 | Some d \<Rightarrow> d)
                             (hd (map fst parent)) (tl (map fst parent))"
    from False have "hd (map fst parent) # tl (map fst parent) = map fst parent" by simp
    with first_max_in [of _ "hd (map fst parent)" "tl (map fst parent)"]
    have dp: "deepest \<in> fst ` set parent" unfolding deepest_def by (metis set_map)
    from i have v: "set visited = insert t (fst ` set parent)" "t \<notin> fst ` set parent"
      "dom (map_of depth) = set visited"
      and p: "\<And>x p. map_of parent x = Some p \<Longrightarrow>
         \<exists>dp. map_of depth p = Some dp \<and> map_of depth x = Some (Suc dp)"
      by (auto simp: cp_inv_def)
    from dp v obtain n where n: "map_of depth deepest = Some n" by blast
    from cp_walk_returns [of parent depth deepest n t "[]", OF p n] obtain chain where
      w: "cp_walk parent t deepest [] = Some chain" "parent_chain parent t deepest chain"
      by auto
    from dp v have dv: "deepest \<in> set visited" "deepest \<noteq> t" by auto
    from parent_chain_props [OF i w(2) dv(1)] have pr: "t \<notin> set chain"
      "list_all (uncommitted nodes) chain" "dep_chain nodes chain t" by simp_all
    from w(2) dv(2) have ne: "chain \<noteq> []" by (cases chain) auto
    from b False w(1) have "critical_path nodes t = Some chain"
      by (simp add: critical_path_def deepest_def)
    with ne pr show ?thesis by (intro chain)
  qed
qed

lemma critical_path_returns: "\<exists>p. critical_path nodes t = Some p"
  by (rule critical_path_cases [of nodes t]) auto

lemma cp_scan_grows:
  "cp_scan nodes current d ds (visited, queue, depth, parent) = (visited', queue', depth', parent')
     \<Longrightarrow> fst ` set parent \<subseteq> fst ` set parent'
         \<and> (\<forall>x\<in>set ds. uncommitted nodes x \<longrightarrow> x \<in> set visited')
         \<and> set visited \<subseteq> set visited'"
proof (induction ds arbitrary: visited queue depth parent)
  case Nil
  then show ?case by simp
next
  case (Cons dep_id ds)
  show ?case
  proof (cases "uncommitted nodes dep_id \<and> dep_id \<notin> set visited")
    case True
    with Cons.prems have "cp_scan nodes current d ds
             (dep_id # visited, queue @ [(dep_id, d + 1)],
              AList.update dep_id (d + 1) depth, AList.update dep_id current parent)
            = (visited', queue', depth', parent')" by simp
    from Cons.IH [OF this] show ?thesis by (auto simp: dom_update)
  next
    case False
    with Cons.prems have "cp_scan nodes current d ds (visited, queue, depth, parent)
       = (visited', queue', depth', parent')" by simp
    from Cons.IH [OF this] False show ?thesis by auto
  qed
qed

lemma cp_bfs_grows:
  "cp_bfs nodes (visited, queue, depth, parent) = (depth', parent') \<Longrightarrow> fst ` set parent \<subseteq> fst ` set parent'"
proof (induction nodes "(visited, queue, depth, parent)" arbitrary: visited queue depth parent rule: cp_bfs.induct)
  case (1 nodes visited depth parent)
  then show ?case by simp
next
  case (2 nodes visited current d queue depth parent)
  obtain v1 q1 d1 p1 where s: "cp_scan nodes current d (deps_of nodes current) (visited, queue, depth, parent)
      = (v1, q1, d1, p1)" by (metis prod_cases4)
  from 2(1) [OF s] 2(2) s have "fst ` set p1 \<subseteq> fst ` set parent'" by simp
  moreover from cp_scan_grows [OF s] have "fst ` set parent \<subseteq> fst ` set p1" by simp
  ultimately show ?case by (rule order_trans [rotated])
qed

lemma critical_path_blocked:
  assumes "x \<in> set (deps_of nodes t)" "uncommitted nodes x" "t \<notin> set (deps_of nodes t)"
  shows "\<exists>p. critical_path nodes t = Some p \<and> p \<noteq> [] \<and> t \<notin> set p
            \<and> list_all (uncommitted nodes) p \<and> dep_chain nodes p t"
proof (rule critical_path_cases [of nodes t])
  fix p
  assume "critical_path nodes t = Some p" "p \<noteq> []" "t \<notin> set p"
      "list_all (uncommitted nodes) p" "dep_chain nodes p t"
  then show ?thesis by blast
next
  assume e: "snd (cp_bfs nodes ([t], [(t, 0)], [(t, 0)], [])) = []"
  obtain v1 q1 d1 p1 where s: "cp_scan nodes t 0 (deps_of nodes t) ([t], [], [(t, 0)], [])
      = (v1, q1, d1, p1)" by (metis prod_cases4)
  have "cp_inv nodes t ([t], [], [(t, 0)], [])" by (simp add: cp_inv_def)
  from cp_scan_inv [OF this, of t 0 "deps_of nodes t"] s have "cp_inv nodes t (v1, q1, d1, p1)" by simp
  then have v: "set v1 = insert t (fst ` set p1)" by (simp add: cp_inv_def)
  from cp_scan_grows [OF s] assms(1,2) have "x \<in> set v1" by blast
  moreover from assms(1,3) have "x \<noteq> t" by auto
  ultimately have x: "x \<in> fst ` set p1" using v by auto
  obtain depth parent where b: "cp_bfs nodes (v1, q1, d1, p1) = (depth, parent)"
    by (cases "cp_bfs nodes (v1, q1, d1, p1)")
  from cp_bfs_grows [OF b] x have "parent \<noteq> []" by auto
  moreover have "cp_bfs nodes ([t], [(t, 0)], [(t, 0)], []) = (depth, parent)"
    using s b by simp
  ultimately show ?thesis using e by simp
qed

lemma chain_example:
  assumes "map_of nodes d = Some nd" "map_of nodes c = Some nc" "map_of nodes b = Some nb"
    "map_of nodes a = Some na"
    "get_deps_list nd = [c]" "get_deps_list nc = [b]" "get_deps_list nb = [a]"
    "state na = Some ''committed''" "state nb = Some ''suggested''" "state nc = Some ''suggested''"
    "distinct [b, c, d]"
  shows "critical_path nodes d = Some [b, c]"
proof -
  have w: "cp_walk [(c, d), (b, c)] d b [] = Some [b, c]"
    using assms(11)
    by (subst cp_walk.simps, simp, subst cp_walk.simps, simp, subst cp_walk.simps, simp)
  show ?thesis
    using assms by (auto simp: critical_path_def deps_of_def uncommitted_def w)
qed

section \<open>Frontier: auxiliary facts\<close>

lemma state_or_unknown_suggested: "state_or_unknown n = ''suggested'' \<longleftrightarrow> suggested n"
  by (auto simp: state_or_unknown_def suggested_def split: option.splits)

lemma frontier_scan_result:
  "\<exists>cs bs. frontier_scan nodes downstream xs (committable_now, blocked)
              = Some (committable_now @ cs, blocked @ bs)
     \<and> map e_id cs = map fst (filter (\<lambda>(k, n). suggested n \<and> deps_committed nodes n) xs)
     \<and> map e_id bs = map fst (filter (\<lambda>(k, n). suggested n \<and> \<not> deps_committed nodes n) xs)
     \<and> list_all (\<lambda>e. critical_path nodes (e_id e) = Some (b_critical_path e)) bs"
proof (induction xs arbitrary: committable_now blocked)
  case Nil
  show ?case by simp
next
  case (Cons x xs)
  obtain k n where x: "x = (k, n)" by (cases x)
  show ?case
  proof (cases "suggested n")
    case False
    with Cons [of committable_now blocked] x show ?thesis
      by (simp add: state_or_unknown_suggested)
  next
    case True
    show ?thesis
    proof (cases "deps_committed nodes n")
      case dc: True
      let ?e = "\<lparr>e_id = k, e_level = level n, e_weight = length (adj_get downstream k)\<rparr>"
      from Cons [of "committable_now @ [?e]" blocked] obtain cs bs where
        r: "frontier_scan nodes downstream xs (committable_now @ [?e], blocked)
              = Some ((committable_now @ [?e]) @ cs, blocked @ bs)"
        "map e_id cs = map fst (filter (\<lambda>(k, n). suggested n \<and> deps_committed nodes n) xs)"
        "map e_id bs = map fst (filter (\<lambda>(k, n). suggested n \<and> \<not> deps_committed nodes n) xs)"
        "list_all (\<lambda>e. critical_path nodes (e_id e) = Some (b_critical_path e)) bs"
        by blast
      show ?thesis
        using True dc x r
        by (intro exI [of _ "?e # cs"] exI [of _ bs])
           (simp add: state_or_unknown_suggested deps_committed_def)
    next
      case dc: False
      obtain p where p: "critical_path nodes k = Some p" using critical_path_returns by blast
      let ?e = "\<lparr>e_id = k, e_level = level n, e_weight = length (adj_get downstream k),
                 b_blockers = filter (uncommitted nodes) (get_deps_list n), b_critical_path = p\<rparr>"
      from Cons [of committable_now "blocked @ [?e]"] obtain cs bs where
        r: "frontier_scan nodes downstream xs (committable_now, blocked @ [?e])
              = Some (committable_now @ cs, (blocked @ [?e]) @ bs)"
        "map e_id cs = map fst (filter (\<lambda>(k, n). suggested n \<and> deps_committed nodes n) xs)"
        "map e_id bs = map fst (filter (\<lambda>(k, n). suggested n \<and> \<not> deps_committed nodes n) xs)"
        "list_all (\<lambda>e. critical_path nodes (e_id e) = Some (b_critical_path e)) bs"
        by blast
      show ?thesis
        using True dc x r p
        by (intro exI [of _ cs] exI [of _ "?e # bs"])
           (simp add: state_or_unknown_suggested deps_committed_def)
    qed
  qed
qed

lemma cmd_frontier_result:
  "\<exists>c b. cmd_frontier nodes = Some (c, b)
     \<and> mset (map e_id c) = mset (map fst (filter (\<lambda>(k, n). suggested n \<and> deps_committed nodes n) nodes))
     \<and> mset (map e_id b) = mset (map fst (filter (\<lambda>(k, n). suggested n \<and> \<not> deps_committed nodes n) nodes))
     \<and> list_all (\<lambda>e. critical_path nodes (e_id e) = Some (b_critical_path e)) b"
proof -
  from frontier_scan_result [of nodes "compute_transitive_downstream nodes" "sort_key fst nodes" "[]" "[]"]
  obtain cs bs where
    r: "frontier_scan nodes (compute_transitive_downstream nodes) (sort_key fst nodes) ([], []) = Some (cs, bs)"
    "map e_id cs = map fst (filter (\<lambda>(k, n). suggested n \<and> deps_committed nodes n) (sort_key fst nodes))"
    "map e_id bs = map fst (filter (\<lambda>(k, n). suggested n \<and> \<not> deps_committed nodes n) (sort_key fst nodes))"
    "list_all (\<lambda>e. critical_path nodes (e_id e) = Some (b_critical_path e)) bs"
    by auto
  have m: "mset (map fst (filter P (sort_key fst nodes))) = mset (map fst (filter P nodes))" for P
    by simp
  let ?c = "sort_key (\<lambda>x. (- int (e_weight x),
                               (case e_level x of None \<Rightarrow> 99 | Some l \<Rightarrow> if l = 0 then 99 else l))) cs"
  let ?b = "sort_key (\<lambda>x. (int (length (b_critical_path x)), - int (e_weight x))) bs"
  have "cmd_frontier nodes = Some (?c, ?b)" using r(1) by (simp add: cmd_frontier_def)
  moreover have "mset (map e_id ?c) = mset (map e_id cs)" "mset (map e_id ?b) = mset (map e_id bs)"
    by simp_all
  moreover have "list_all (\<lambda>e. critical_path nodes (e_id e) = Some (b_critical_path e)) ?b"
    using r(4) by (simp add: list_all_iff)
  ultimately show ?thesis using r(2,3) m by auto
qed

lemma count_distinct_keys:
  assumes "distinct (map fst nodes)" "(k, n) \<in> set nodes"
  shows "count (mset (map fst (filter P nodes))) k = (if P (k, n) then 1 else 0)"
  using assms
proof (induction nodes)
  case Nil
  then show ?case by simp
next
  case (Cons x nodes)
  show ?case
  proof (cases "x = (k, n)")
    case True
    with Cons.prems(1) have "k \<notin> fst ` set nodes" by auto
    then have "count (mset (map fst (filter P nodes))) k = 0"
      by (auto simp: count_eq_zero_iff)
    with True show ?thesis by simp
  next
    case False
    with Cons.prems have i: "(k, n) \<in> set nodes" and d: "distinct (map fst nodes)"
      and f: "fst x \<notin> fst ` set nodes"
      by auto
    from i have "k \<in> fst ` set nodes" by force
    with f have "fst x \<noteq> k" by auto
    with Cons.IH [OF d i] show ?thesis by (cases x) auto
  qed
qed

lemma deps_committed_iff:
  "deps_committed nodes n \<longleftrightarrow>
     (\<forall>d\<in>set (get_deps_list n). \<forall>dn. map_of nodes d = Some dn \<longrightarrow> state dn = Some ''committed'')"
  by (auto simp: deps_committed_def uncommitted_def filter_empty_conv split: option.splits)

lemma frontier_membership:
  assumes "distinct (map fst nodes)" "(k, n) \<in> set nodes" "suggested n"
  shows "\<exists>c b. cmd_frontier nodes = Some (c, b) \<and>
     count (mset (map e_id c)) k = (if deps_committed nodes n then 1 else 0) \<and>
     count (mset (map e_id b)) k = (if deps_committed nodes n then 0 else 1) \<and>
     list_all (\<lambda>e. critical_path nodes (e_id e) = Some (b_critical_path e)) b"
proof -
  from cmd_frontier_result [of nodes] obtain c b where
    r: "cmd_frontier nodes = Some (c, b)"
    "mset (map e_id c) = mset (map fst (filter (\<lambda>(k, n). suggested n \<and> deps_committed nodes n) nodes))"
    "mset (map e_id b) = mset (map fst (filter (\<lambda>(k, n). suggested n \<and> \<not> deps_committed nodes n) nodes))"
    "list_all (\<lambda>e. critical_path nodes (e_id e) = Some (b_critical_path e)) b"
    by blast
  from count_distinct_keys [OF assms(1,2), of "\<lambda>(k, n). suggested n \<and> deps_committed nodes n"] r(2) assms(3)
  have 1: "count (mset (map e_id c)) k = (if deps_committed nodes n then 1 else 0)" by simp
  from count_distinct_keys [OF assms(1,2), of "\<lambda>(k, n). suggested n \<and> \<not> deps_committed nodes n"] r(3) assms(3)
  have 2: "count (mset (map e_id b)) k = (if deps_committed nodes n then 0 else 1)" by simp
  from r(1) 1 2 r(4) show ?thesis by blast
qed

lemma node_error_reported:
  assumes "(k, n) \<in> set nodes" "f \<in> set (node_errors nodes k n)" "cmd_validate lint nodes = Inr (es, ws)"
  shows "f \<in> set es"
proof -
  let ?by_id = "sort_key fst nodes"
  let ?e1 = "concat (map (\<lambda>(k, n). node_errors nodes k n) ?by_id)"
  from assms(3) obtain col e8 rest where
    d: "dfs_roots (validate_adjacency nodes) (map fst nodes) (map (\<lambda>(k, n). (k, WHITE)) nodes, ?e1) = Inr (col, e8)"
    and es: "es = e8 @ rest"
    by (auto simp: cmd_validate_def Let_def split: sum.splits)
  from dfs_roots_reports [OF d] obtain new where "e8 = ?e1 @ new" by auto
  moreover from assms(1,2) have "f \<in> set ?e1" by force
  ultimately show ?thesis using es by simp
qed

text \<open>A suggested node all of whose listed dependencies are absent from the graph is
  committable and not blocked; the first loop of validation finds each of the entries.\<close>

lemma dangling_dependencies_committable:
  assumes "distinct (map fst nodes)" and "(k, n) \<in> set nodes" and "state n = Some ''suggested''"
    and "\<forall>d\<in>set (get_deps_list n). \<not> has_id nodes d"
  shows "\<exists>c b. cmd_frontier nodes = Some (c, b) \<and> k \<in> set (map e_id c) \<and> k \<notin> set (map e_id b) \<and>
           (\<forall>d\<in>set (get_deps_list n).
               NonExistentDep k d \<in> set (node_errors nodes k n) \<and>
               (\<forall>es ws. cmd_validate lint nodes = Inr (es, ws) \<longrightarrow> NonExistentDep k d \<in> set es))"
proof -
  from assms(3) have s: "suggested n" by (simp add: suggested_def)
  have "map_of nodes d = None" if "d \<in> set (get_deps_list n)" for d
    using that assms(4) by (force simp: has_id_def map_of_eq_None_iff)
  then have dc: "deps_committed nodes n" by (auto simp: deps_committed_iff)
  from frontier_membership [OF assms(1,2) s] dc obtain c b where
    r: "cmd_frontier nodes = Some (c, b)"
    "count (mset (map e_id c)) k = 1" "count (mset (map e_id b)) k = 0"
    by auto
  from r(2) have "k \<in># mset (map e_id c)" by (metis count_eq_zero_iff zero_neq_one)
  then have 1: "k \<in> set (map e_id c)" by (simp only: set_mset_mset)
  from r(3) have "k \<notin># mset (map e_id b)" by (metis count_eq_zero_iff)
  then have 2: "k \<notin> set (map e_id b)" by (metis set_mset_mset)
  have 3: "NonExistentDep k d \<in> set (node_errors nodes k n)" if "d \<in> set (get_deps_list n)" for d
    using that assms(4) by (auto simp: node_errors_def)
  have 4: "NonExistentDep k d \<in> set es"
    if "d \<in> set (get_deps_list n)" "cmd_validate lint nodes = Inr (es, ws)" for d es ws
    using node_error_reported [OF assms(2) 3 [OF that(1)] that(2)] .
  from r(1) 1 2 3 4 show ?thesis by blast
qed

section \<open>Incremental cycle check: the search decides reachability\<close>

lemma cycle_search_sound:
  "cycle_search adj k stack visited \<Longrightarrow> \<exists>s\<in>set stack. (s, k) \<in> (adj_edges adj)\<^sup>*"
proof (induction adj k stack visited rule: cycle_search.induct)
  case (1 adj k visited)
  then show ?case by simp
next
  case (2 adj k current stack visited)
  show ?case
  proof (cases "current = k")
    case True
    then show ?thesis by auto
  next
    case nk: False
    show ?thesis
    proof (cases "current \<in> set visited")
      case True
      with nk 2 show ?thesis by auto
    next
      case False
      with nk 2 obtain s where s: "s \<in> set (rev (adj_get adj current) @ stack)" "(s, k) \<in> (adj_edges adj)\<^sup>*"
        by auto
      show ?thesis
      proof (cases "s \<in> set stack")
        case True
        with s show ?thesis by auto
      next
        case False
        with s have "(current, s) \<in> adj_edges adj" by (auto simp: adj_edges_def)
        with s(2) have "(current, k) \<in> (adj_edges adj)\<^sup>*" by (meson converse_rtrancl_into_rtrancl)
        then show ?thesis by auto
      qed
    qed
  qed
qed

lemma closed_unreachable:
  assumes "\<And>x y. x \<in> V \<Longrightarrow> (x, y) \<in> r \<Longrightarrow> y \<in> V" and "(s, k) \<in> r\<^sup>*" and "s \<in> V"
  shows "k \<in> V"
  using assms(2,3)
proof (induction rule: rtrancl_induct)
  case base
  then show ?case .
next
  case (step y z)
  then show ?case using assms(1) by blast
qed

lemma cycle_search_complete:
  "\<not> cycle_search adj k stack visited \<Longrightarrow> k \<notin> set visited
     \<Longrightarrow> (\<And>x y. x \<in> set visited \<Longrightarrow> (x, y) \<in> adj_edges adj \<Longrightarrow> y \<in> set visited \<union> set stack)
     \<Longrightarrow> s \<in> set stack \<union> set visited \<Longrightarrow> (s, k) \<notin> (adj_edges adj)\<^sup>*"
proof (induction adj k stack visited arbitrary: s rule: cycle_search.induct)
  case (1 adj k visited)
  show ?case
  proof
    assume r: "(s, k) \<in> (adj_edges adj)\<^sup>*"
    have "k \<in> set visited"
    proof (rule closed_unreachable [OF _ r])
      show "s \<in> set visited" using 1(4) by simp
    next
      fix x y
      assume "x \<in> set visited" "(x, y) \<in> adj_edges adj"
      with 1(3) show "y \<in> set visited" by auto
    qed
    with 1(2) show False by simp
  qed
next
  case (2 adj k current stack visited)
  from 2(3) have nk: "current \<noteq> k" by auto
  show ?case
  proof (cases "current \<in> set visited")
    case True
    with nk 2(3) have f: "\<not> cycle_search adj k stack visited" by simp
    have c: "\<And>x y. x \<in> set visited \<Longrightarrow> (x, y) \<in> adj_edges adj \<Longrightarrow> y \<in> set visited \<union> set stack"
      using 2(5) True by fastforce
    have "s \<in> set stack \<union> set visited" using 2(6) True by auto
    from 2(1) [OF nk True f 2(4) c this] show ?thesis .
  next
    case False
    with nk 2(3) have f: "\<not> cycle_search adj k (rev (adj_get adj current) @ stack) (current # visited)"
      by simp
    have v: "k \<notin> set (current # visited)" using nk 2(4) by auto
    have c: "\<And>x y. x \<in> set (current # visited) \<Longrightarrow> (x, y) \<in> adj_edges adj
        \<Longrightarrow> y \<in> set (current # visited) \<union> set (rev (adj_get adj current) @ stack)"
    proof -
      fix x y
      assume a: "x \<in> set (current # visited)" "(x, y) \<in> adj_edges adj"
      show "y \<in> set (current # visited) \<union> set (rev (adj_get adj current) @ stack)"
      proof (cases "x = current")
        case True
        with a(2) show ?thesis by (auto simp: adj_edges_def)
      next
        case False
        with a have "x \<in> set visited" by simp
        from 2(5) [OF this a(2)] show ?thesis by auto
      qed
    qed
    have "s \<in> set (rev (adj_get adj current) @ stack) \<union> set (current # visited)" using 2(6) by auto
    from 2(2) [OF nk False f v c this] show ?thesis .
  qed
qed

lemma cycle_search_iff: "cycle_search adj k [d] [] \<longleftrightarrow> (d, k) \<in> (adj_edges adj)\<^sup>*"
proof
  assume "cycle_search adj k [d] []"
  from cycle_search_sound [OF this] show "(d, k) \<in> (adj_edges adj)\<^sup>*" by simp
next
  assume r: "(d, k) \<in> (adj_edges adj)\<^sup>*"
  show "cycle_search adj k [d] []"
  proof (rule ccontr)
    assume "\<not> cycle_search adj k [d] []"
    from cycle_search_complete [OF this, of d] r show False by simp
  qed
qed

lemma map_of_set_adjacency:
  "adj_get (set_adjacency nodes k ds) x =
     (if x = k then remdups ds
      else (case map_of nodes x of
              None \<Rightarrow> []
            | Some n \<Rightarrow> remdups (filter (has_id nodes) (get_deps_list n))))"
proof -
  have "map_of (map (\<lambda>(e, n). (e, f n)) (filter (\<lambda>(e, n). e \<noteq> k) xs)) x
        = (if x = k then None else map_option f (map_of xs x))" for xs and f :: "node \<Rightarrow> nid list"
    by (induction xs) auto
  then show ?thesis
    by (simp add: set_adjacency_def adj_get_def split: option.splits)
qed

lemma adj_edges_set_adjacency:
  "adj_edges (set_adjacency nodes k ds) =
     {(x, y). (x = k \<and> y \<in> set ds) \<or> (x \<noteq> k \<and> (x, y) \<in> forward_edges nodes \<and> has_id nodes y)}"
proof -
  have "y \<in> set (adj_get (set_adjacency nodes k ds) x) \<longleftrightarrow>
          (x = k \<and> y \<in> set ds) \<or> (x \<noteq> k \<and> (x, y) \<in> forward_edges nodes \<and> has_id nodes y)" for x y
    by (cases "map_of nodes x") (auto simp: map_of_set_adjacency forward_edges_def)
  then show ?thesis by (auto simp: adj_edges_def)
qed

lemma subst_path_in_adjacency:
  assumes "has_id nodes k"
  shows "(x, k) \<in> (subst_edges nodes k ds)\<^sup>* \<Longrightarrow> (x, k) \<in> (adj_edges (set_adjacency nodes k ds))\<^sup>*"
proof (induction rule: converse_rtrancl_induct)
  case base
  show ?case by simp
next
  case (step x y)
  have hy: "has_id nodes y"
  proof (cases "y = k")
    case True
    with assms show ?thesis by simp
  next
    case False
    with step(2) obtain z where "(y, z) \<in> subst_edges nodes k ds"
      by (auto elim: converse_rtranclE)
    with False obtain n where "map_of nodes y = Some n"
      by (auto simp: subst_edges_def forward_edges_def)
    then have "(y, n) \<in> set nodes" by (rule map_of_SomeD)
    then show ?thesis by (force simp: has_id_def)
  qed
  with step(1) have "(x, y) \<in> adj_edges (set_adjacency nodes k ds)"
    by (auto simp: adj_edges_set_adjacency subst_edges_def)
  with step(3) show ?case by (meson converse_rtrancl_into_rtrancl)
qed

lemma adjacency_in_forward:
  assumes "map_of nodes k = Some n" "set ds \<subseteq> set (get_deps_list n)"
  shows "adj_edges (set_adjacency nodes k ds) \<subseteq> forward_edges nodes"
  using assms by (auto simp: adj_edges_set_adjacency forward_edges_def)

section \<open>Cascade: waves and shortest distances\<close>

text \<open>The nodes nearer to the start than \<open>j\<close> steps.\<close>

definition near :: "('a \<times> 'a) set \<Rightarrow> 'a \<Rightarrow> nat \<Rightarrow> 'a set" where
  "near E s j = {x. \<exists>m<j. x \<in> dist_set E s m}"

lemma dist_set_0: "dist_set E s 0 = {s}"
  by (auto simp: dist_set_def)

lemma dist_set_unique: "x \<in> dist_set E s n \<Longrightarrow> x \<in> dist_set E s m \<Longrightarrow> n = m"
  by (metis (mono_tags, lifting) dist_set_def linorder_neqE_nat mem_Collect_eq)

lemma reach_has_dist:
  assumes "(s, x) \<in> E ^^ n"
  shows "\<exists>m\<le>n. x \<in> dist_set E s m"
proof -
  define l where "l = (LEAST m. (s, x) \<in> E ^^ m)"
  have 1: "(s, x) \<in> E ^^ l" unfolding l_def using assms by (rule LeastI)
  have 2: "l \<le> n" unfolding l_def using assms by (rule Least_le)
  have 3: "(s, x) \<notin> E ^^ m" if "m < l" for m
    using that not_less_Least unfolding l_def by blast
  from 1 3 have "x \<in> dist_set E s l" by (simp add: dist_set_def)
  with 2 show ?thesis by blast
qed

lemma dist_set_pred:
  assumes "x \<in> dist_set E s (Suc n)"
  shows "\<exists>y\<in>dist_set E s n. (y, x) \<in> E"
proof -
  from assms have r: "(s, x) \<in> E ^^ Suc n" and l: "\<And>m. m < Suc n \<Longrightarrow> (s, x) \<notin> E ^^ m"
    by (auto simp: dist_set_def)
  from r obtain y where y: "(s, y) \<in> E ^^ n" "(y, x) \<in> E" by auto
  from reach_has_dist [OF y(1)] obtain m where m: "m \<le> n" "y \<in> dist_set E s m" by blast
  have "m = n"
  proof (rule ccontr)
    assume "m \<noteq> n"
    with m(1) have "Suc m < Suc n" by simp
    moreover from m(2) y(2) have "(s, x) \<in> E ^^ Suc m" by (auto simp: dist_set_def)
    ultimately show False using l by blast
  qed
  with m(2) y(2) show ?thesis by blast
qed

lemma dist_set_succ:
  assumes "y \<in> dist_set E s n" "(y, x) \<in> E" "x \<notin> near E s n"
  shows "x \<in> dist_set E s n \<union> dist_set E s (Suc n)"
proof -
  from assms(1,2) have "(s, x) \<in> E ^^ Suc n" by (auto simp: dist_set_def)
  from reach_has_dist [OF this] obtain m where m: "m \<le> Suc n" "x \<in> dist_set E s m" by blast
  from assms(3) m(2) have "\<not> m < n" by (auto simp: near_def)
  with m(1) have "m = n \<or> m = Suc n" by arith
  with m(2) show ?thesis by auto
qed

lemma near_Suc: "near E s (Suc j) = near E s j \<union> dist_set E s j"
  by (auto simp: near_def less_Suc_eq)

lemma near_0: "near E s 0 = {}"
  by (simp add: near_def)

lemma dist_not_near: "x \<in> dist_set E s n \<Longrightarrow> n \<ge> j \<Longrightarrow> x \<notin> near E s j"
  using dist_set_unique by (fastforce simp: near_def)

lemma start_near: "0 < j \<Longrightarrow> s \<in> near E s j"
  by (auto simp: near_def dist_set_0 intro: exI [of _ 0])

lemma node_wave_effect: "map (node \<circ> wave_effect nodes reverse k) ds = ds"
  by (induction ds) (simp_all add: wave_effect_def)

lemma wave_step_added:
  "wave_step nodes reverse ks (V, es, nx) = (V', es', nx')
     \<Longrightarrow> \<exists>added. nx' = nx @ added \<and> map node es' = map node es @ added \<and>
           (\<forall>d\<in>set added. \<exists>k\<in>set ks - set V.
               (k, d) \<in> wave_edges nodes reverse \<and> d \<notin> set V \<and> d \<noteq> k) \<and>
           (\<forall>k\<in>set ks - set V. \<forall>d. (k, d) \<in> wave_edges nodes reverse \<and> d \<notin> set V \<union> set ks
               \<longrightarrow> d \<in> set added)"
proof (induction ks arbitrary: V es nx)
  case Nil
  then show ?case by simp
next
  case (Cons k ks)
  show ?case
  proof (cases "k \<in> set V")
    case True
    with Cons.prems have "wave_step nodes reverse ks (V, es, nx) = (V', es', nx')" by simp
    from Cons.IH [OF this] obtain added where
      a: "nx' = nx @ added" "map node es' = map node es @ added"
      "\<forall>d\<in>set added. \<exists>k\<in>set ks - set V. (k, d) \<in> wave_edges nodes reverse \<and> d \<notin> set V \<and> d \<noteq> k"
      "\<forall>k\<in>set ks - set V. \<forall>d. (k, d) \<in> wave_edges nodes reverse \<and> d \<notin> set V \<union> set ks
               \<longrightarrow> d \<in> set added"
      by blast
    have "\<forall>d\<in>set added. \<exists>k'\<in>set (k # ks) - set V.
            (k', d) \<in> wave_edges nodes reverse \<and> d \<notin> set V \<and> d \<noteq> k'"
      using a(3) by auto
    moreover have "\<forall>k'\<in>set (k # ks) - set V. \<forall>d. (k', d) \<in> wave_edges nodes reverse
            \<and> d \<notin> set V \<union> set (k # ks) \<longrightarrow> d \<in> set added"
      using a(4) True by auto
    ultimately show ?thesis using a(1,2) by blast
  next
    case False
    define new where "new = filter (\<lambda>d. d \<notin> set (k # V)) (wave_neighbours nodes reverse k)"
    from False Cons.prems have "wave_step nodes reverse ks
        (k # V, es @ map (wave_effect nodes reverse k) new, nx @ new) = (V', es', nx')"
      by (simp add: new_def)
    from Cons.IH [OF this] obtain added where
      a: "nx' = (nx @ new) @ added"
      "map node es' = map node (es @ map (wave_effect nodes reverse k) new) @ added"
      "\<forall>d\<in>set added. \<exists>k'\<in>set ks - set (k # V).
          (k', d) \<in> wave_edges nodes reverse \<and> d \<notin> set (k # V) \<and> d \<noteq> k'"
      "\<forall>k'\<in>set ks - set (k # V). \<forall>d. (k', d) \<in> wave_edges nodes reverse \<and> d \<notin> set (k # V) \<union> set ks
               \<longrightarrow> d \<in> set added"
      by blast
    have n: "d \<in> set new \<longleftrightarrow> (k, d) \<in> wave_edges nodes reverse \<and> d \<notin> set V \<and> d \<noteq> k" for d
      by (auto simp: new_def wave_edges_def)
    have 1: "nx' = nx @ (new @ added)" using a(1) by simp
    have 2: "map node es' = map node es @ (new @ added)" using a(2) by (simp add: node_wave_effect)
    have 3: "\<forall>d\<in>set (new @ added). \<exists>k'\<in>set (k # ks) - set V.
            (k', d) \<in> wave_edges nodes reverse \<and> d \<notin> set V \<and> d \<noteq> k'"
    proof
      fix d
      assume "d \<in> set (new @ added)"
      then consider "d \<in> set new" | "d \<in> set added" by auto
      then show "\<exists>k'\<in>set (k # ks) - set V. (k', d) \<in> wave_edges nodes reverse \<and> d \<notin> set V \<and> d \<noteq> k'"
      proof cases
        case 1
        with n False show ?thesis by auto
      next
        case 2
        with a(3) obtain k' where "k' \<in> set ks - set (k # V)"
          "(k', d) \<in> wave_edges nodes reverse" "d \<notin> set (k # V)" "d \<noteq> k'" by blast
        then show ?thesis by auto
      qed
    qed
    have 4: "\<forall>k'\<in>set (k # ks) - set V. \<forall>d. (k', d) \<in> wave_edges nodes reverse
            \<and> d \<notin> set V \<union> set (k # ks) \<longrightarrow> d \<in> set (new @ added)"
    proof (intro ballI allI impI)
      fix k' d
      assume k': "k' \<in> set (k # ks) - set V"
        and d: "(k', d) \<in> wave_edges nodes reverse \<and> d \<notin> set V \<union> set (k # ks)"
      show "d \<in> set (new @ added)"
      proof (cases "k' = k")
        case True
        with d n show ?thesis by auto
      next
        case False
        with k' have "k' \<in> set ks - set (k # V)" by auto
        moreover from d have "(k', d) \<in> wave_edges nodes reverse \<and> d \<notin> set (k # V) \<union> set ks" by auto
        ultimately have "d \<in> set added" using a(4) by blast
        then show ?thesis by simp
      qed
    qed
    from 1 2 3 4 show ?thesis by blast
  qed
qed

text \<open>
  The invariant of the \<^verbatim>\<open>while changed\<close> loop after \<open>j\<close> rounds: the waves recorded so far are
  numbered from 1 without a gap, none is empty, and for every \<open>m\<close> from 1 to \<open>j\<close> the wave
  numbered \<open>m\<close> names every node at distance \<open>m\<close> and only nodes at distance \<open>m\<close> or
  \<open>m - 1\<close>, never the start node.
\<close>

definition waves_ok :: "(nid \<times> nid) set \<Rightarrow> nid \<Rightarrow> nat \<Rightarrow> (nat \<times> effect list) list \<Rightarrow> bool" where
  "waves_ok E s j waves =
     (map fst waves = [1..<Suc (length waves)] \<and> length waves \<le> j \<and>
      (\<forall>w es. (w, es) \<in> set waves \<longrightarrow> es \<noteq> []) \<and>
      (\<forall>m. 1 \<le> m \<and> m \<le> j \<longrightarrow>
           dist_set E s m \<subseteq> wave_nodes waves m \<and>
           wave_nodes waves m \<subseteq> (dist_set E s m \<union> dist_set E s (m - 1)) - {s}))"

lemma wave_number_bounds:
  assumes "map fst waves = [1..<Suc (length waves)]" "(n, es) \<in> set waves"
  shows "1 \<le> n \<and> n \<le> length waves"
proof -
  from assms(2) have "n \<in> set (map fst waves)" by force
  with assms(1) show ?thesis by auto
qed

lemma wave_nodes_beyond:
  assumes "map fst waves = [1..<Suc (length waves)]" "length waves < n"
  shows "wave_nodes waves n = {}"
  using wave_number_bounds [OF assms(1)] assms(2) by (fastforce simp: wave_nodes_def)

lemma wave_nodes_snoc:
  "wave_nodes (waves @ [(w, es)]) n = wave_nodes waves n \<union> (if n = w then node ` set es else {})"
  by (auto simp: wave_nodes_def)

lemma dist_set_empty_later:
  assumes "dist_set E s j = {}" "j \<le> m"
  shows "dist_set E s m = {}"
  using assms(2)
proof (induction m)
  case 0
  with assms(1) show ?case by simp
next
  case (Suc m)
  show ?case
  proof (cases "j \<le> m")
    case True
    with Suc.IH have "dist_set E s m = {}" by simp
    with dist_set_pred [of _ E s m] show ?thesis by blast
  next
    case False
    with Suc.prems have "j = Suc m" by simp
    with assms(1) show ?thesis by simp
  qed
qed

lemma wave_step_round:
  assumes v: "set visited = near E s j" and lo: "dist_set E s j \<subseteq> set changed"
    and up: "set changed \<subseteq> dist_set E s j \<union> near E s j"
    and E: "E = wave_edges nodes reverse"
    and w: "wave_step nodes reverse (sort (remdups changed)) (visited, [], []) = (visited', es', nx')"
  shows "set visited' = near E s (Suc j)" and "map node es' = nx'"
    and "dist_set E s (Suc j) \<subseteq> set nx'"
    and "set nx' \<subseteq> (dist_set E s (Suc j) \<union> dist_set E s j) - {s}"
proof -
  let ?ks = "sort (remdups changed)"
  have ks: "set ?ks = set changed" by simp
  from wave_step_visited [OF w] have "set visited' = set visited \<union> set changed" by simp
  with v lo up show "set visited' = near E s (Suc j)" by (auto simp: near_Suc)
  from wave_step_added [OF w] obtain added where
    a: "nx' = added" "map node es' = added"
    "\<forall>d\<in>set added. \<exists>k\<in>set ?ks - set visited. (k, d) \<in> E \<and> d \<notin> set visited \<and> d \<noteq> k"
    "\<forall>k\<in>set ?ks - set visited. \<forall>d. (k, d) \<in> E \<and> d \<notin> set visited \<union> set ?ks \<longrightarrow> d \<in> set added"
    unfolding E by auto
  from a(1,2) show "map node es' = nx'" by simp
  have proc: "set ?ks - set visited = dist_set E s j"
  proof -
    have "dist_set E s j \<inter> near E s j = {}" using dist_not_near [of _ E s j j] by auto
    with v lo up ks show ?thesis by auto
  qed
  show "dist_set E s (Suc j) \<subseteq> set nx'"
  proof
    fix x
    assume x: "x \<in> dist_set E s (Suc j)"
    from dist_set_pred [OF x] obtain y where y: "y \<in> dist_set E s j" "(y, x) \<in> E" by blast
    from x have 1: "x \<notin> near E s j" by (rule dist_not_near) simp
    from x have 2: "x \<notin> dist_set E s j" using dist_set_unique by fastforce
    from 1 2 up v ks have "x \<notin> set visited \<union> set ?ks" by auto
    with y proc a(4) have "x \<in> set added" by blast
    with a(1) show "x \<in> set nx'" by simp
  qed
  show "set nx' \<subseteq> (dist_set E s (Suc j) \<union> dist_set E s j) - {s}"
  proof
    fix d
    assume "d \<in> set nx'"
    with a(1,3) proc obtain k where k: "k \<in> dist_set E s j" "(k, d) \<in> E" "d \<notin> set visited" "d \<noteq> k"
      by blast
    from k(3) v have nn: "d \<notin> near E s j" by simp
    from dist_set_succ [OF k(1,2) nn] have 1: "d \<in> dist_set E s (Suc j) \<union> dist_set E s j" by auto
    have "d \<noteq> s"
    proof (cases j)
      case 0
      with k(1) have "k = s" by (simp add: dist_set_0)
      with k(4) show ?thesis by simp
    next
      case (Suc i)
      then have "s \<in> near E s j" by (intro start_near) simp
      with nn show ?thesis by auto
    qed
    with 1 show "d \<in> (dist_set E s (Suc j) \<union> dist_set E s j) - {s}" by simp
  qed
qed

lemma waves_ok_step:
  assumes ok: "waves_ok E s j waves" and len: "length waves = j"
    and m: "map node es' = nx'"
    and lo: "dist_set E s (Suc j) \<subseteq> set nx'"
    and up: "set nx' \<subseteq> (dist_set E s (Suc j) \<union> dist_set E s j) - {s}"
  shows "waves_ok E s (Suc j) (if es' \<noteq> [] then waves @ [(j + 1, es')] else waves)"
proof -
  from ok have num: "map fst waves = [1..<Suc (length waves)]"
    and ne: "\<forall>w es. (w, es) \<in> set waves \<longrightarrow> es \<noteq> []"
    and old: "\<forall>m. 1 \<le> m \<and> m \<le> j \<longrightarrow> dist_set E s m \<subseteq> wave_nodes waves m \<and>
           wave_nodes waves m \<subseteq> (dist_set E s m \<union> dist_set E s (m - 1)) - {s}"
    by (simp_all add: waves_ok_def)
  have beyond: "wave_nodes waves (Suc j) = {}"
    using wave_nodes_beyond [OF num] len by simp
  from m have nodes: "node ` set es' = set nx'" by (metis set_map)
  show ?thesis
  proof (cases "es' = []")
    case True
    with m have "nx' = []" by simp
    with lo have "dist_set E s (Suc j) = {}" by simp
    with beyond old num ne len True show ?thesis
      by (auto simp: waves_ok_def le_Suc_eq)
  next
    case False
    have 1: "map fst (waves @ [(j + 1, es')]) = [1..<Suc (length (waves @ [(j + 1, es')]))]"
      using num len by simp
    have 2: "\<forall>w es. (w, es) \<in> set (waves @ [(j + 1, es')]) \<longrightarrow> es \<noteq> []"
      using ne False by auto
    have 3: "dist_set E s n \<subseteq> wave_nodes (waves @ [(j + 1, es')]) n \<and>
           wave_nodes (waves @ [(j + 1, es')]) n \<subseteq> (dist_set E s n \<union> dist_set E s (n - 1)) - {s}"
      if n: "1 \<le> n \<and> n \<le> Suc j" for n
    proof (cases "n = Suc j")
      case True
      with beyond nodes lo up show ?thesis by (simp add: wave_nodes_snoc)
    next
      case False
      with n have "1 \<le> n \<and> n \<le> j" by simp
      with old False show ?thesis by (simp add: wave_nodes_snoc)
    qed
    from 1 2 3 False len show ?thesis by (simp add: waves_ok_def)
  qed
qed

lemma cascade_loop_waves:
  assumes "E = wave_edges nodes reverse"
    and "set visited = near E s j" and "dist_set E s j \<subseteq> set changed"
    and "set changed \<subseteq> dist_set E s j \<union> near E s j"
    and "waves_ok E s j waves" and "changed \<noteq> [] \<longrightarrow> length waves = j"
  shows "\<exists>j'. waves_ok E s j' (cascade_loop nodes reverse changed visited j waves)
              \<and> dist_set E s j' = {}"
  using assms
proof (induction nodes reverse changed visited j waves rule: cascade_loop.induct)
  case (1 nodes reverse changed visited j waves)
  show ?case
  proof (cases "changed = []")
    case True
    with "1.prems"(3) have "dist_set E s j = {}" by simp
    with True "1.prems"(5) show ?thesis by (subst cascade_loop.simps) auto
  next
    case False
    obtain visited' es' nx' where
      w: "wave_step nodes reverse (sort (remdups changed)) (visited, [], []) = (visited', es', nx')"
      by (metis prod_cases3)
    note r = wave_step_round [OF "1.prems"(2,3,4,1) w]
    from False "1.prems"(6) have len: "length waves = j" by simp
    have ok': "waves_ok E s (j + 1) (if es' \<noteq> [] then waves @ [(j + 1, es')] else waves)"
      using waves_ok_step [OF "1.prems"(5) len r(2,3,4)] by simp
    have up': "set nx' \<subseteq> dist_set E s (j + 1) \<union> near E s (j + 1)"
      using r(4) by (auto simp: near_Suc)
    have len': "nx' \<noteq> [] \<longrightarrow> length (if es' \<noteq> [] then waves @ [(j + 1, es')] else waves) = j + 1"
      using r(2) len by auto
    have "\<exists>j'. waves_ok E s j' (cascade_loop nodes reverse nx' visited' (j + 1)
              (if es' \<noteq> [] then waves @ [(j + 1, es')] else waves)) \<and> dist_set E s j' = {}"
      using "1.IH" [OF False w [symmetric] refl "1.prems"(1) _ _ up' ok' len'] r(1,3) by simp
    with False w show ?thesis by (subst cascade_loop.simps) simp
  qed
qed

lemma cascade_loop_start:
  assumes E: "E = wave_edges nodes reverse"
  shows "\<exists>j'. waves_ok E s j' (cascade_loop nodes reverse [s] [] 0 []) \<and> dist_set E s j' = {}"
proof (rule cascade_loop_waves [OF E])
  show "set [] = near E s 0" by (simp add: near_0)
  show "dist_set E s 0 \<subseteq> set [s]" by (simp add: dist_set_0)
  show "set [s] \<subseteq> dist_set E s 0 \<union> near E s 0" by (simp add: dist_set_0)
  show "waves_ok E s 0 []" by (simp add: waves_ok_def)
  show "[s] \<noteq> [] \<longrightarrow> length [] = 0" by simp
qed

lemma cascade_loop_result:
  fixes nodes reverse s
  defines "waves \<equiv> cascade_loop nodes reverse [s] [] 0 []"
  shows "map fst waves = [1..<Suc (length waves)]"
    and "\<And>w es. (w, es) \<in> set waves \<Longrightarrow> es \<noteq> []"
    and "\<And>n x. x \<in> at_distance nodes reverse s n \<Longrightarrow> 1 \<le> n \<Longrightarrow> x \<in> wave_nodes waves n"
    and "\<And>n x. x \<in> wave_nodes waves n \<Longrightarrow>
           \<exists>d. x \<in> at_distance nodes reverse s d \<and> 1 \<le> d \<and> (n = d \<or> n = Suc d)"
proof -
  define E where "E = wave_edges nodes reverse"
  from cascade_loop_start [OF E_def, of s] obtain j where
    ok: "waves_ok E s j waves" and e: "dist_set E s j = {}"
    unfolding waves_def by blast
  from ok show num: "map fst waves = [1..<Suc (length waves)]" by (simp add: waves_ok_def)
  from ok show "\<And>w es. (w, es) \<in> set waves \<Longrightarrow> es \<noteq> []" by (simp add: waves_ok_def)
  from ok have len: "length waves \<le> j" by (simp add: waves_ok_def)
  from ok have old: "\<And>m. 1 \<le> m \<Longrightarrow> m \<le> j \<Longrightarrow> dist_set E s m \<subseteq> wave_nodes waves m \<and>
           wave_nodes waves m \<subseteq> (dist_set E s m \<union> dist_set E s (m - 1)) - {s}"
    by (simp add: waves_ok_def)
  show "x \<in> wave_nodes waves n" if "x \<in> at_distance nodes reverse s n" "1 \<le> n" for n x
  proof (cases "n \<le> j")
    case True
    with old [OF that(2)] that(1) show ?thesis by (auto simp: at_distance_def E_def)
  next
    case False
    then have "dist_set E s n = {}" using dist_set_empty_later [OF e, of n] by simp
    with that(1) show ?thesis by (simp add: at_distance_def E_def)
  qed
  show "\<exists>d. x \<in> at_distance nodes reverse s d \<and> 1 \<le> d \<and> (n = d \<or> n = Suc d)"
    if x: "x \<in> wave_nodes waves n" for n x
  proof -
    from x obtain es where "(n, es) \<in> set waves" by (auto simp: wave_nodes_def)
    from wave_number_bounds [OF num this] len have n: "1 \<le> n" "n \<le> j" by simp_all
    from old [OF n] x have xs: "x \<noteq> s" and c: "x \<in> dist_set E s n \<or> x \<in> dist_set E s (n - 1)"
      by auto
    from c show ?thesis
    proof
      assume "x \<in> dist_set E s n"
      with n(1) show ?thesis by (auto simp: at_distance_def E_def)
    next
      assume d: "x \<in> dist_set E s (n - 1)"
      have "n - 1 \<noteq> 0"
      proof
        assume "n - 1 = 0"
        with d xs show False by (simp add: dist_set_0)
      qed
      with d n(1) show ?thesis
        by (intro exI [of _ "n - 1"]) (auto simp: at_distance_def E_def)
    qed
  qed
qed

section \<open>The claims\<close>

text \<open>
  Claim C1: whole-graph validation is exhaustive and never aborts; in particular the
  cycle-detection traversal completes on every graph, also when a later traversal
  reaches a node that an earlier one left in the in-progress colour.

  The code does not satisfy this. In the graph below DEC-001 and DEC-002 depend on each
  other and DEC-003 depends on DEC-002. The traversal from DEC-001 reports the cycle at
  DEC-002 and returns from that call before \<^verbatim>\<open>color[u] = BLACK\<close>, so DEC-002 stays gray. The
  traversal from DEC-003 then finds DEC-002 gray, but DEC-002 is not on its path, and
  \<^verbatim>\<open>path.index(v)\<close> raises \<^verbatim>\<open>ValueError\<close>: validation ends without any result.
\<close>

theorem C1_validate_aborts_on_stale_gray:
  "cmd_validate lint
     [(''DEC-001'', decision ''suggested'' [''DEC-002''] Project),
      (''DEC-002'', decision ''suggested'' [''DEC-001''] Project),
      (''DEC-003'', decision ''suggested'' [''DEC-002''] Project)] = Inl ValueError"
  by (simp add: validate_eval)

text \<open>
  Claim C4: for a node in the graph whose current state is \<open>old\<close>, \<^verbatim>\<open>validate_for_set\<close> on the
  field \<^verbatim>\<open>state\<close> returns no error for suggested to committed (when every dependency
  present in the graph is committed), suggested to superseded, committed to superseded
  and \<open>old = new\<close>, and an error for every other pair.

  The claim fails for committed to committed: \<^verbatim>\<open>validate_transition\<close> accepts the same state,
  but the guard \<^verbatim>\<open>if value == "committed" and not errors\<close> then checks the upstream
  dependencies whatever the old state is. DEC-002 below is committed and depends on the
  suggested DEC-001; setting its state to committed again is refused.
\<close>

theorem C4_same_state_counterexample:
  "state (decision ''committed'' [''DEC-001''] Project) = Some ''committed'' \<and>
   validate_for_set ''DEC-002'' ''state'' (VStr ''committed'')
     [(''DEC-001'', decision ''suggested'' [] Project),
      (''DEC-002'', decision ''committed'' [''DEC-001''] Project)]
   = Inr ([CannotCommit ''DEC-002'' ''DEC-001'' ''suggested''], [])"
  by (simp add: validate_for_set_def set_state_errors_def validate_transition_def decision_def
      get_deps_list_def List.map_filter_simps state_or_unknown_def)

text \<open>
  Claim C4 as amended: the error list is empty exactly when the pair is suggested to
  superseded or committed to superseded, or the state is unchanged and is not committed,
  or the new state is committed, the old one is suggested or committed, and every
  dependency present in the graph is committed. The current state of a node without
  the key \<^verbatim>\<open>state\<close> is suggested.
\<close>

theorem C4_state_transitions:
  assumes "map_of nodes k = Some n"
    and "old = (case state n of None \<Rightarrow> ''suggested'' | Some s \<Rightarrow> s)"
  shows "\<exists>errs. validate_for_set k ''state'' (VStr new) nodes = Inr (errs, []) \<and>
           (errs = [] \<longleftrightarrow>
              (old = new \<and> new \<noteq> ''committed'')
            \<or> (old = ''suggested'' \<and> new = ''superseded'')
            \<or> (old = ''committed'' \<and> new = ''superseded'')
            \<or> ((old = ''suggested'' \<or> old = ''committed'') \<and> new = ''committed''
                 \<and> deps_committed nodes n))"
proof -
  have "validate_for_set k ''state'' (VStr new) nodes = Inr (set_state_errors k n (VStr new) nodes, [])"
    using assms(1) by (simp add: validate_for_set_def)
  moreover have "set_state_errors k n (VStr new) nodes = [] \<longleftrightarrow>
              (old = new \<and> new \<noteq> ''committed'')
            \<or> (old = ''suggested'' \<and> new = ''superseded'')
            \<or> (old = ''committed'' \<and> new = ''superseded'')
            \<or> ((old = ''suggested'' \<or> old = ''committed'') \<and> new = ''committed''
                 \<and> deps_committed nodes n)"
    unfolding set_state_errors_empty assms(2) [symmetric]
    by (auto simp: LEGAL_TRANSITIONS_def)
  ultimately show ?thesis by simp
qed

text \<open>The amended claim at work: a suggested node whose only dependency is committed may
  be committed.\<close>

theorem C4_state_transitions_witness:
  "validate_for_set ''DEC-002'' ''state'' (VStr ''committed'')
     [(''DEC-001'', decision ''committed'' [] Project),
      (''DEC-002'', decision ''suggested'' [''DEC-001''] Project)] = Inr ([], [])"
  using C4_state_transitions [of "[(''DEC-001'', decision ''committed'' [] Project),
      (''DEC-002'', decision ''suggested'' [''DEC-001''] Project)]" "''DEC-002''"
      "decision ''suggested'' [''DEC-001''] Project" "''suggested''" "''committed''"]
  by (simp add: decision_def deps_committed_def uncommitted_def get_deps_list_def List.map_filter_simps)

text \<open>
  Claim C2: a back-edge to an in-progress node is reported as the exact cycle, the path
  from where that node reappears back to itself, and at most one cycle error is reported
  per unvisited component.

  The code does not keep to one cycle error per component. After reporting a cycle
  \<^verbatim>\<open>dfs\<close> leaves through a bare \<^verbatim>\<open>return\<close>, which ends only the call of the node where the
  cycle was found: no flag or result tells the callers, which go on with their remaining
  edges. In the graph below everything hangs on the single root DEC-001. The search
  reports the cycle through DEC-002, returns to DEC-001, goes on to DEC-003 and reports a
  second cycle. It is the \<^verbatim>\<open>return\<close> of claim C1 again: there it leaves a node gray, here
  it fails to stop the traversal of the component.
\<close>

theorem C2_two_cycles_from_one_root:
  "cmd_validate (\<lambda>g k n. [])
     [(''DEC-001'', decision ''suggested'' [''DEC-002'', ''DEC-003''] Project),
      (''DEC-002'', decision ''suggested'' [''DEC-001''] Project),
      (''DEC-003'', decision ''suggested'' [''DEC-001''] Project)]
   = Inr ([CycleDetected [''DEC-001'', ''DEC-002'', ''DEC-001''],
           CycleDetected [''DEC-001'', ''DEC-003'', ''DEC-001'']],
          concat (map (\<lambda>k. map (MissingSection k) [''Decision'', ''Reasoning'', ''Assumptions'', ''Tradeoffs''])
                      [''DEC-001'', ''DEC-002'', ''DEC-003'']))"
  by (simp add: validate_eval)

text \<open>
  Claim C5: every node whose state is suggested appears in exactly one of the frontier's
  lists \<^verbatim>\<open>committable_now\<close> and \<^verbatim>\<open>blocked\<close>, never in both and never in neither, and it is
  committable exactly when every one of its dependencies that is present in the graph is
  committed. The frontier is computed for every graph (the reconstruction of the critical
  paths always ends), and the node's ID occurs once in the two lists together.
\<close>

theorem C5_frontier_partition:
  assumes "distinct (map fst nodes)" and "(k, n) \<in> set nodes" and "state n = Some ''suggested''"
  shows "\<exists>c b. cmd_frontier nodes = Some (c, b) \<and>
     count (mset (map e_id c)) k + count (mset (map e_id b)) k = 1 \<and>
     (k \<in> set (map e_id c) \<longleftrightarrow>
        (\<forall>d\<in>set (get_deps_list n). \<forall>dn. map_of nodes d = Some dn \<longrightarrow> state dn = Some ''committed''))"
proof -
  from assms(3) have s: "suggested n" by (simp add: suggested_def)
  from frontier_membership [OF assms(1,2) s] obtain c b where
    r: "cmd_frontier nodes = Some (c, b)"
    "count (mset (map e_id c)) k = (if deps_committed nodes n then 1 else 0)"
    "count (mset (map e_id b)) k = (if deps_committed nodes n then 0 else 1)"
    by blast
  have "k \<in> set (map e_id c) \<longleftrightarrow> count (mset (map e_id c)) k > 0"
    by (simp only: count_greater_zero_iff set_mset_mset)
  with r(2) have "k \<in> set (map e_id c) \<longleftrightarrow> deps_committed nodes n" by simp
  with r show ?thesis unfolding deps_committed_iff [symmetric] by (intro exI [of _ c] exI [of _ b]) simp
qed

text \<open>DEC-002 is suggested and its only dependency DEC-001 is committed: it is listed once,
  as committable.\<close>

theorem C5_frontier_partition_witness:
  "\<exists>c b. cmd_frontier
       [(''DEC-001'', decision ''committed'' [] Project),
        (''DEC-002'', decision ''suggested'' [''DEC-001''] Project),
        (''DEC-003'', decision ''suggested'' [''DEC-002''] Project)] = Some (c, b) \<and>
     count (mset (map e_id c)) ''DEC-002'' + count (mset (map e_id b)) ''DEC-002'' = 1 \<and>
     ''DEC-002'' \<in> set (map e_id c)"
  using C5_frontier_partition [of
       "[(''DEC-001'', decision ''committed'' [] Project),
        (''DEC-002'', decision ''suggested'' [''DEC-001''] Project),
        (''DEC-003'', decision ''suggested'' [''DEC-002''] Project)]"
       "''DEC-002''" "decision ''suggested'' [''DEC-001''] Project"]
  by (simp add: decision_def get_deps_list_def List.map_filter_simps)

text \<open>
  Claim C6: the critical path of a blocked node is the chain from the deepest unresolved
  ancestor down to, but excluding, the target, and committing its nodes in order leaves
  the target without uncommitted dependencies; the docstring of \<^verbatim>\<open>_critical_path\<close> says the
  same ("commit these in order to unblock the target").

  The code returns one chain of parent pointers, which cannot unblock a target that two
  branches block. DEC-003 below depends on the suggested DEC-001 and DEC-002. The
  frontier gives it the critical path DEC-001 alone. In the graph that is loaded once
  DEC-001 is committed, DEC-003 is still blocked, now by DEC-002.
\<close>

theorem C6_critical_path_leaves_target_blocked:
  "cmd_frontier
     [(''DEC-001'', decision ''suggested'' [] Project),
      (''DEC-002'', decision ''suggested'' [] Project),
      (''DEC-003'', decision ''suggested'' [''DEC-001'', ''DEC-002''] Project)]
   = Some ([\<lparr>e_id = ''DEC-001'', e_level = Some 1, e_weight = 1\<rparr>,
            \<lparr>e_id = ''DEC-002'', e_level = Some 1, e_weight = 1\<rparr>],
           [\<lparr>e_id = ''DEC-003'', e_level = Some 1, e_weight = 0,
              b_blockers = [''DEC-001'', ''DEC-002''], b_critical_path = [''DEC-001'']\<rparr>]) \<and>
   cmd_frontier
     [(''DEC-001'', decision ''committed'' [] Project),
      (''DEC-002'', decision ''suggested'' [] Project),
      (''DEC-003'', decision ''suggested'' [''DEC-001'', ''DEC-002''] Project)]
   = Some ([\<lparr>e_id = ''DEC-002'', e_level = Some 1, e_weight = 1\<rparr>],
           [\<lparr>e_id = ''DEC-003'', e_level = Some 1, e_weight = 0,
              b_blockers = [''DEC-002''], b_critical_path = [''DEC-002'']\<rparr>])"
  by code_simp

text \<open>
  Claim C7: a constitution-scope node with a dependency on a project-scope node always
  produces exactly one iron-rule error from validation, whatever else the graph holds,
  and a project-scope node that depends on a constitution-scope node never does.

  The iron-rule check (check 11) runs after the cycle check, so it shares the defect of
  claim C1. In the graph below the constitution node DEC-001 depends on the project node
  DEC-002; DEC-002 and DEC-003 depend on each other and DEC-004 depends on DEC-003. The
  cycle is reported at DEC-003, which stays gray, the traversal from DEC-004 raises
  \<^verbatim>\<open>ValueError\<close>, and validation returns no error at all, so no iron-rule error either.
\<close>

theorem C7_iron_rule_lost_on_abort:
  "cmd_validate lint
     [(''DEC-001'', decision ''suggested'' [''DEC-002''] Constitution),
      (''DEC-002'', decision ''suggested'' [''DEC-003''] Project),
      (''DEC-003'', decision ''suggested'' [''DEC-002''] Project),
      (''DEC-004'', decision ''suggested'' [''DEC-003''] Project)] = Inl ValueError"
  by (simp add: validate_eval)

text \<open>
  Claim C9: loading aborts exactly when some ID is present in both the constitution
  partition and the project partition.

  The test in \<^verbatim>\<open>load_graph\<close> is \<^verbatim>\<open>if nid in nodes\<close>, which also holds when two files of one
  directory carry the same ID. Below the constitution directory does not exist and two
  project files both declare DEC-001: the load exits although no ID is in both partitions.
\<close>

theorem C9_same_partition_counterexample:
  "load_graph None
     [(''dna/DEC-001.md'', Some (Some ''DEC-001'', decision ''suggested'' [] Project)),
      (''dna/DEC-001-copy.md'', Some (Some ''DEC-001'', decision ''suggested'' [] Project))]
     = Inl SystemExit \<and>
   set (loaded_ids (dir_files None)) \<inter>
   set (loaded_ids
     [(''dna/DEC-001.md'', Some (Some ''DEC-001'', decision ''suggested'' [] Project)),
      (''dna/DEC-001-copy.md'', Some (Some ''DEC-001'', decision ''suggested'' [] Project))]) = {}"
  by (simp add: load_graph_def has_id_def dir_files_def loaded_ids_def List.map_filter_simps)

text \<open>
  Claim C9 as amended: loading aborts exactly when two of the loaded records (files with
  a frontmatter that has an ID) carry the same ID, in different partitions or in the same
  one; in every other case it returns the mapping, which holds exactly the loaded IDs.
  Files without frontmatter or without ID are skipped.
\<close>

theorem C9_load_collision:
  "(\<not> distinct (loaded_ids (dir_files constitution_dir) @ loaded_ids dna_dir)
      \<longrightarrow> load_graph constitution_dir dna_dir = Inl SystemExit) \<and>
   (distinct (loaded_ids (dir_files constitution_dir) @ loaded_ids dna_dir)
      \<longrightarrow> (\<exists>nodes. load_graph constitution_dir dna_dir = Inr nodes \<and>
             mset (map fst nodes) = mset (loaded_ids (dir_files constitution_dir) @ loaded_ids dna_dir)))"
proof -
  let ?cs = "sort_key fst (dir_files constitution_dir)" and ?ps = "sort_key fst dna_dir"
  have m: "mset (loaded_ids ?cs @ loaded_ids ?ps)
         = mset (loaded_ids (dir_files constitution_dir) @ loaded_ids dna_dir)"
    by (simp add: loaded_ids_sort)
  then have d: "distinct (loaded_ids ?cs @ loaded_ids ?ps)
         \<longleftrightarrow> distinct (loaded_ids (dir_files constitution_dir) @ loaded_ids dna_dir)"
    by (rule mset_eq_imp_distinct_iff)
  have c: "(case constitution_dir of None \<Rightarrow> Inr [] | Some files \<Rightarrow> load_files Constitution (sort_key fst files) [])
        = load_files Constitution ?cs []"
    by (cases constitution_dir) (simp_all add: dir_files_def)
  show ?thesis
    unfolding load_graph_def c d [symmetric] m [symmetric]
    by (auto simp: load_files_result [of _ ?cs] load_files_result [of _ ?ps] mset_fst_loaded
          set_fst_loaded)
qed

text \<open>Both cases of the amended claim: DEC-001 in both partitions aborts the load; DEC-001
  in the constitution and DEC-002 in the project, next to a file without frontmatter,
  load as two nodes.\<close>

theorem C9_load_collision_witness:
  "load_graph (Some [(''constitution/DEC-001.md'', Some (Some ''DEC-001'', decision ''committed'' [] Project))])
     [(''dna/DEC-001.md'', Some (Some ''DEC-001'', decision ''suggested'' [] Project))] = Inl SystemExit \<and>
   (\<exists>nodes. load_graph (Some [(''constitution/DEC-001.md'', Some (Some ''DEC-001'', decision ''committed'' [] Project))])
              [(''dna/DEC-002.md'', Some (Some ''DEC-002'', decision ''suggested'' [] Project)),
               (''dna/DEC-003.md'', None)] = Inr nodes \<and>
            mset (map fst nodes) = mset [''DEC-001'', ''DEC-002''])"
  using C9_load_collision [of "Some [(''constitution/DEC-001.md'', Some (Some ''DEC-001'', decision ''committed'' [] Project))]"
          "[(''dna/DEC-001.md'', Some (Some ''DEC-001'', decision ''suggested'' [] Project))]"]
        C9_load_collision [of "Some [(''constitution/DEC-001.md'', Some (Some ''DEC-001'', decision ''committed'' [] Project))]"
          "[(''dna/DEC-002.md'', Some (Some ''DEC-002'', decision ''suggested'' [] Project)),
            (''dna/DEC-003.md'', None)]"]
  by (simp add: dir_files_def loaded_ids_def List.map_filter_simps record_id_def)

text \<open>
  Claim C10: dependencies that are absent from the graph never block the frontier: a
  suggested node all of whose dependencies are missing is committable now, although
  whole-graph validation reports those same entries as references to non-existent nodes.

  The frontier does what the claim says (lemma \<open>dangling_dependencies_committable\<close>, for
  every graph). Validation does not always report the entries. DEC-004 below is
  suggested and depends on DEC-009 only, which does not exist, and the frontier lists it
  as committable. Check 6 appends the error for DEC-009, but DEC-001 and DEC-002 depend
  on each other and DEC-003 depends on DEC-002, so the cycle check that follows raises
  \<^verbatim>\<open>ValueError\<close> as in claim C1, and validation returns nothing.
\<close>

theorem C10_dangling_entry_not_reported:
  "cmd_frontier
     [(''DEC-001'', decision ''committed'' [''DEC-002''] Project),
      (''DEC-002'', decision ''committed'' [''DEC-001''] Project),
      (''DEC-003'', decision ''committed'' [''DEC-002''] Project),
      (''DEC-004'', decision ''suggested'' [''DEC-009''] Project)]
   = Some ([\<lparr>e_id = ''DEC-004'', e_level = Some 1, e_weight = 0\<rparr>], []) \<and>
   cmd_validate lint
     [(''DEC-001'', decision ''committed'' [''DEC-002''] Project),
      (''DEC-002'', decision ''committed'' [''DEC-001''] Project),
      (''DEC-003'', decision ''committed'' [''DEC-002''] Project),
      (''DEC-004'', decision ''suggested'' [''DEC-009''] Project)] = Inl ValueError"
proof -
  have "cmd_frontier
     [(''DEC-001'', decision ''committed'' [''DEC-002''] Project),
      (''DEC-002'', decision ''committed'' [''DEC-001''] Project),
      (''DEC-003'', decision ''committed'' [''DEC-002''] Project),
      (''DEC-004'', decision ''suggested'' [''DEC-009''] Project)]
   = Some ([\<lparr>e_id = ''DEC-004'', e_level = Some 1, e_weight = 0\<rparr>], [])"
    by code_simp
  then show ?thesis by (simp add: validate_eval)
qed

text \<open>
  Claim C8: for a node of the graph, \<^verbatim>\<open>validate_for_set\<close> on \<^verbatim>\<open>depends_on\<close> returns a non-empty
  error list whenever replacing the node's outgoing edges by the proposed list would
  create a cycle through the node, and then \<^verbatim>\<open>cmd_set\<close> returns 1 and leaves the persisted
  records as they are; and when the forward-edge graph is acyclic and the proposed list
  holds only dependencies the node already has (a reordering or a pruning), no cycle
  error is produced.
\<close>

theorem C8_incremental_cycle_check:
  assumes "map_of nodes k = Some n"
  shows "\<exists>errs ws. validate_for_set k ''depends_on'' (VList ds) nodes = Inr (errs, ws) \<and>
     ((k, k) \<in> (subst_edges nodes k ds)\<^sup>+
        \<longrightarrow> errs \<noteq> [] \<and> cmd_set persist k ''depends_on'' (VList ds) nodes = Inr (1, nodes)) \<and>
     (acyclic (forward_edges nodes) \<and> set ds \<subseteq> set (get_deps_list n)
        \<longrightarrow> (\<forall>a d. WouldCycle a d \<notin> set errs))"
proof -
  let ?errs = "set_deps_errors k n ds nodes" and ?ws = "set_deps_warnings k n ds nodes"
  let ?adj = "set_adjacency nodes k ds"
  have v: "validate_for_set k ''depends_on'' (VList ds) nodes = Inr (?errs, ?ws)"
    using assms by (simp add: validate_for_set_def)
  from assms have "(k, n) \<in> set nodes" by (rule map_of_SomeD)
  then have hk: "has_id nodes k" by (force simp: has_id_def)
  have 1: "?errs \<noteq> [] \<and> cmd_set persist k ''depends_on'' (VList ds) nodes = Inr (1, nodes)"
    if c: "(k, k) \<in> (subst_edges nodes k ds)\<^sup>+"
  proof -
    from c obtain d where d: "(k, d) \<in> subst_edges nodes k ds" "(d, k) \<in> (subst_edges nodes k ds)\<^sup>*"
      by (auto dest: tranclD)
    from d(1) have dd: "d \<in> set ds" by (simp add: subst_edges_def)
    from subst_path_in_adjacency [OF hk d(2)] have "cycle_search ?adj k [d] []"
      by (simp only: cycle_search_iff)
    with dd have "WouldCycle k d \<in> set (set_cycle_errors k ds nodes)"
      by (auto simp: set_cycle_errors_def)
    then have "set_cycle_errors k ds nodes \<noteq> []" by auto
    with dd have e: "?errs \<noteq> []"
      by (auto simp: set_deps_errors_def Let_def)
    with v assms show ?thesis by (simp add: cmd_set_def)
  qed
  have 2: "WouldCycle a d \<notin> set ?errs"
    if c: "acyclic (forward_edges nodes) \<and> set ds \<subseteq> set (get_deps_list n)" for a d
  proof
    assume "WouldCycle a d \<in> set ?errs"
    then have "WouldCycle a d \<in> set (set_cycle_errors k ds nodes)"
      by (auto simp: set_deps_errors_def Let_def set_deps_basic_errors_def iron_rule_errors_def
            split: if_splits option.splits)
    then have dd: "d \<in> set ds" and s: "cycle_search ?adj k [d] []"
      by (auto simp: set_cycle_errors_def split: if_splits)
    from s have "(d, k) \<in> (adj_edges ?adj)\<^sup>*" by (simp only: cycle_search_iff)
    with adjacency_in_forward [OF assms, of ds] c have "(d, k) \<in> (forward_edges nodes)\<^sup>*"
      by (meson rtrancl_mono subsetD)
    moreover from dd c assms have "(k, d) \<in> forward_edges nodes" by (auto simp: forward_edges_def)
    ultimately have "(k, k) \<in> (forward_edges nodes)\<^sup>+" by (meson rtrancl_into_trancl2)
    with c show False by (auto simp: acyclic_def)
  qed
  from v 1 2 show ?thesis by blast
qed

text \<open>The scenario of the specification: DEC-002 depends on DEC-001, and setting the
  dependencies of DEC-001 to DEC-002 is refused with a cycle error and changes nothing;
  setting those of DEC-002 to the list it already has raises no error.\<close>

theorem C8_incremental_cycle_check_witness:
  "validate_for_set ''DEC-001'' ''depends_on'' (VList [''DEC-002''])
     [(''DEC-001'', decision ''committed'' [] Project),
      (''DEC-002'', decision ''suggested'' [''DEC-001''] Project)]
     = Inr ([WouldCycle ''DEC-001'' ''DEC-002''], []) \<and>
   cmd_set (\<lambda>f v m. Inr m) ''DEC-001'' ''depends_on'' (VList [''DEC-002''])
     [(''DEC-001'', decision ''committed'' [] Project),
      (''DEC-002'', decision ''suggested'' [''DEC-001''] Project)]
     = Inr (1, [(''DEC-001'', decision ''committed'' [] Project),
                (''DEC-002'', decision ''suggested'' [''DEC-001''] Project)]) \<and>
   validate_for_set ''DEC-002'' ''depends_on'' (VList [''DEC-001''])
     [(''DEC-001'', decision ''committed'' [] Project),
      (''DEC-002'', decision ''suggested'' [''DEC-001''] Project)]
     = Inr ([], [])"
proof -
  let ?n1 = "decision ''committed'' [] Project" and ?n2 = "decision ''suggested'' [''DEC-001''] Project"
  let ?g = "[(''DEC-001'', ?n1), (''DEC-002'', ?n2)]"
  have d: "get_deps_list ?n1 = []" "get_deps_list ?n2 = [''DEC-001'']"
    by (simp_all add: decision_def get_deps_list_def List.map_filter_simps)
  have "(''DEC-001'', ''DEC-002'') \<in> subst_edges ?g ''DEC-001'' [''DEC-002'']"
    by (simp add: subst_edges_def)
  moreover have "(''DEC-002'', ''DEC-001'') \<in> subst_edges ?g ''DEC-001'' [''DEC-002'']"
    by (simp add: subst_edges_def forward_edges_def d)
  ultimately have c: "(''DEC-001'', ''DEC-001'') \<in> (subst_edges ?g ''DEC-001'' [''DEC-002''])\<^sup>+"
    by (meson trancl.simps)
  have f: "forward_edges ?g = {(''DEC-002'', ''DEC-001'')}"
    by (auto simp: forward_edges_def d split: if_splits)
  have "acyclic ({} :: (nid \<times> nid) set)" by (rule wf_acyclic) simp
  then have a: "acyclic (forward_edges ?g)"
    unfolding f by simp
  have e1: "validate_for_set ''DEC-001'' ''depends_on'' (VList [''DEC-002'']) ?g
             = Inr ([WouldCycle ''DEC-001'' ''DEC-002''], [])"
    by code_simp
  have e2: "validate_for_set ''DEC-002'' ''depends_on'' (VList [''DEC-001'']) ?g = Inr ([], [])"
    by code_simp
  show ?thesis
    using C8_incremental_cycle_check [of ?g "''DEC-001''" ?n1 "[''DEC-002'']" "\<lambda>f v m. Inr m"]
      C8_incremental_cycle_check [of ?g "''DEC-002''" ?n2 "[''DEC-001'']" "\<lambda>f v m. Inr m"] c a d e1 e2
    by simp
qed

text \<open>
  Claim C3: for every graph and every start node present in it, in the wave list produced
  by the cascade (in either direction) each affected node occurs at most once across all
  waves, and the wave in which it occurs is its shortest-path distance from the start
  node; expansion halts when a wave is empty.

  The claim fails on the number of occurrences. \<^verbatim>\<open>visited\<close> holds the nodes whose
  neighbours have been expanded, not the nodes already reported, so a node reported in
  wave \<open>d\<close> is reported again for every neighbour of it that is expanded before it:
  those at distance \<open>d - 1\<close> (several effects in wave \<open>d\<close>) and those at distance \<open>d\<close>
  that sort before it or are expanded in the same round (effects in wave \<open>d + 1\<close>).
  Below DEC-002 depends on DEC-001, and DEC-003 on both: DEC-003 is at distance 1 from
  DEC-001 and is reported in wave 1 and in wave 2. The summary counts both: three
  effects (\<^verbatim>\<open>total_affected\<close>) on two nodes (\<^verbatim>\<open>unique_affected\<close>).
\<close>

theorem C3_node_in_two_waves_counterexample:
  "cmd_cascade
     [(''DEC-001'', decision ''committed'' [] Project),
      (''DEC-002'', decision ''suggested'' [''DEC-001''] Project),
      (''DEC-003'', decision ''suggested'' [''DEC-001'', ''DEC-002''] Project)] ''DEC-001''
   = Some [(1, [\<lparr>node = ''DEC-002'', current_state = ''suggested'',
                  reason = DependsOn ''DEC-001'', cross_directory = False\<rparr>,
                \<lparr>node = ''DEC-003'', current_state = ''suggested'',
                  reason = DependsOn ''DEC-001'', cross_directory = False\<rparr>]),
           (2, [\<lparr>node = ''DEC-003'', current_state = ''suggested'',
                  reason = DependsOn ''DEC-002'', cross_directory = False\<rparr>])] \<and>
   total_affected
     [(1, [\<lparr>node = ''DEC-002'', current_state = ''suggested'',
                  reason = DependsOn ''DEC-001'', cross_directory = False\<rparr>,
                \<lparr>node = ''DEC-003'', current_state = ''suggested'',
                  reason = DependsOn ''DEC-001'', cross_directory = False\<rparr>]),
           (2, [\<lparr>node = ''DEC-003'', current_state = ''suggested'',
                  reason = DependsOn ''DEC-002'', cross_directory = False\<rparr>])] = 3 \<and>
   unique_affected
     [(1, [\<lparr>node = ''DEC-002'', current_state = ''suggested'',
                  reason = DependsOn ''DEC-001'', cross_directory = False\<rparr>,
                \<lparr>node = ''DEC-003'', current_state = ''suggested'',
                  reason = DependsOn ''DEC-001'', cross_directory = False\<rparr>]),
           (2, [\<lparr>node = ''DEC-003'', current_state = ''suggested'',
                  reason = DependsOn ''DEC-002'', cross_directory = False\<rparr>])] = 2"
  by code_simp

text \<open>
  Claim C3 as amended: for a start node present in the graph the cascade, in either
  direction, returns a list of waves numbered 1, 2, ... without a gap, none of them
  empty; every node at shortest-path distance \<open>d \<ge> 1\<close> from the start node is named by an
  effect of wave \<open>d\<close>; and every node named by an effect of wave \<open>n\<close> is at a distance
  \<open>d \<ge> 1\<close> with \<open>n = d\<close> or \<open>n = d + 1\<close>. So the first wave that names a node is the one
  numbered by its distance, the node may be named again in that wave and in the next
  one and nowhere else, and the start node is never named. Since the waves are numbered
  without a gap and none is empty, the expansion stops at the first round that produces
  no effect.
\<close>

theorem C3_cascade_waves:
  assumes "has_id nodes start"
  shows "\<exists>waves.
           (if reverse then cmd_cascade_reverse nodes start else cmd_cascade nodes start) = Some waves \<and>
           map fst waves = [1..<Suc (length waves)] \<and>
           (\<forall>w es. (w, es) \<in> set waves \<longrightarrow> es \<noteq> []) \<and>
           (\<forall>n x. x \<in> at_distance nodes reverse start n \<and> 1 \<le> n \<longrightarrow> x \<in> wave_nodes waves n) \<and>
           (\<forall>n x. x \<in> wave_nodes waves n \<longrightarrow>
                (\<exists>d. x \<in> at_distance nodes reverse start d \<and> 1 \<le> d \<and> (n = d \<or> n = Suc d)))"
proof -
  define waves where "waves = cascade_loop nodes reverse [start] [] 0 []"
  have "(if reverse then cmd_cascade_reverse nodes start else cmd_cascade nodes start) = Some waves"
    using assms by (cases reverse) (simp_all add: cmd_cascade_def cmd_cascade_reverse_def waves_def
      del: cascade_loop.simps)
  moreover have "map fst waves = [1..<Suc (length waves)]"
    unfolding waves_def by (rule cascade_loop_result(1))
  moreover have "\<forall>w es. (w, es) \<in> set waves \<longrightarrow> es \<noteq> []"
    unfolding waves_def using cascade_loop_result(2) by blast
  moreover have "\<forall>n x. x \<in> at_distance nodes reverse start n \<and> 1 \<le> n \<longrightarrow> x \<in> wave_nodes waves n"
    unfolding waves_def using cascade_loop_result(3) by blast
  moreover have "\<forall>n x. x \<in> wave_nodes waves n \<longrightarrow>
                (\<exists>d. x \<in> at_distance nodes reverse start d \<and> 1 \<le> d \<and> (n = d \<or> n = Suc d))"
    unfolding waves_def using cascade_loop_result(4) by blast
  ultimately show ?thesis by blast
qed

text \<open>The amended claim on the graph of the counterexample: DEC-001 is in the graph, and
  the downstream cascade from it returns waves numbered without a gap, none empty.\<close>

theorem C3_cascade_waves_witness:
  "has_id [(''DEC-001'', decision ''committed'' [] Project),
           (''DEC-002'', decision ''suggested'' [''DEC-001''] Project),
           (''DEC-003'', decision ''suggested'' [''DEC-001'', ''DEC-002''] Project)] ''DEC-001'' \<and>
   (\<exists>waves. cmd_cascade
       [(''DEC-001'', decision ''committed'' [] Project),
        (''DEC-002'', decision ''suggested'' [''DEC-001''] Project),
        (''DEC-003'', decision ''suggested'' [''DEC-001'', ''DEC-002''] Project)] ''DEC-001'' = Some waves \<and>
      map fst waves = [1..<Suc (length waves)] \<and> [] \<notin> snd ` set waves)"
proof -
  have h: "has_id [(''DEC-001'', decision ''committed'' [] Project),
           (''DEC-002'', decision ''suggested'' [''DEC-001''] Project),
           (''DEC-003'', decision ''suggested'' [''DEC-001'', ''DEC-002''] Project)] ''DEC-001''"
    by (simp add: has_id_def)
  from C3_cascade_waves [OF h, of False] obtain waves where
    "cmd_cascade
       [(''DEC-001'', decision ''committed'' [] Project),
        (''DEC-002'', decision ''suggested'' [''DEC-001''] Project),
        (''DEC-003'', decision ''suggested'' [''DEC-001'', ''DEC-002''] Project)] ''DEC-001'' = Some waves"
    "map fst waves = [1..<Suc (length waves)]"
    "\<forall>w es. (w, es) \<in> set waves \<longrightarrow> es \<noteq> []"
    by auto
  moreover from this(3) have "[] \<notin> snd ` set waves" by force
  ultimately show ?thesis using h by blast
qed

end
